theory Spec2Isabelle
  imports Main "HOL-Library.Sublist"
begin

section \<open>JavaScript strings and regular-expression drivers\<close>

text \<open>
  A JavaScript string is modelled as a \<^typ>\<open>string\<close>: one \<^typ>\<open>char\<close> per UTF-16 code
  unit, for code units below 256. In that range the class \<open>\s\<close> of a regular expression
  and the characters removed by \<open>String.prototype.trim\<close> are TAB, LF, VT, FF, CR, SPACE
  and NBSP; the characters that \<open>.\<close> does not match are LF and CR; \<open>\d\<close> is \<open>0-9\<close>.
\<close>

definition isSpace :: "char \<Rightarrow> bool" where
  "isSpace c = (c \<in> set [CHR 0x09, CHR 0x0A, CHR 0x0B, CHR 0x0C, CHR 0x0D, CHR 0x20, CHR 0xA0])"

definition isLineTerminator :: "char \<Rightarrow> bool" where
  "isLineTerminator c = (c = CHR 0x0A \<or> c = CHR 0x0D)"

definition isDigit :: "char \<Rightarrow> bool" where
  "isDigit c = (c \<in> set ''0123456789'')"

text \<open>\<open>s.trim()\<close>\<close>

definition trim :: "string \<Rightarrow> string" where
  "trim s = rev (dropWhile isSpace (rev (dropWhile isSpace s)))"

text \<open>\<open>s.startsWith(p)\<close>\<close>

definition startsWith :: "string \<Rightarrow> string \<Rightarrow> bool" where
  "startsWith s p = (take (length p) s = p)"

text \<open>\<open>xs.join(sep)\<close>\<close>

fun join :: "string \<Rightarrow> string list \<Rightarrow> string" where
  "join sep [] = []"
| "join sep [x] = x"
| "join sep (x # y # ys) = x @ sep @ join sep (y # ys)"

text \<open>
  A regular expression is modelled by its matcher at one position: given the text before
  the position (reversed, for lookbehind) and the text from the position on, it returns
  the matched text and the captured groups, or \<open>None\<close>. Each matcher below follows the
  backtracking order of its pattern; the comments say why the first candidate tried is
  the only one that can succeed.
\<close>

type_synonym matcher = "string \<Rightarrow> string \<Rightarrow> (string \<times> string list) option"

text \<open>\<open>$n\<close> in a replacement template: the n-th group (counted from 1).\<close>

definition grp :: "nat \<Rightarrow> string list \<Rightarrow> string" where
  "grp n caps = (if 0 < n \<and> n \<le> length caps then caps ! (n - 1) else [])"

text \<open>
  \<open>s.replace(/rx/g, template)\<close>: the matches are searched from left to right, each search
  starting where the previous match ended (one character later after an empty match);
  the text between the matches is copied, each match is replaced by the template
  instantiated with the match (\<open>$&\<close>) and its groups. \<open>pre\<close> is the text already passed, reversed.
\<close>

function replaceAll :: "matcher \<Rightarrow> (string \<Rightarrow> string list \<Rightarrow> string) \<Rightarrow> string \<Rightarrow> string \<Rightarrow> string" where
  "replaceAll rx tmpl pre [] =
     (case rx pre [] of Some (m, caps) \<Rightarrow> tmpl [] caps | None \<Rightarrow> [])"
| "replaceAll rx tmpl pre (c # cs) =
     (case rx pre (c # cs) of
        Some (m, caps) \<Rightarrow>
          (if m = [] then tmpl [] caps @ c # replaceAll rx tmpl (c # pre) cs
           else tmpl m caps @ replaceAll rx tmpl (rev m @ pre) (drop (length m) (c # cs)))
      | None \<Rightarrow> c # replaceAll rx tmpl (c # pre) cs)"
  by pat_completeness auto
termination
  by (relation "measure (\<lambda>(rx, tmpl, pre, s). length s)") auto

section \<open>The inline span transformer\<close>

text \<open>
  \<open>(.*?)\<close> followed by the literal \<open>d\<close>: the lazy star tries the shortest group first, so
  the group ends at the first occurrence of \<open>d\<close>, and the match fails when a line
  terminator comes before it.
\<close>

fun lazyDotUntil :: "string \<Rightarrow> string \<Rightarrow> string option" where
  "lazyDotUntil d [] = (if d = [] then Some [] else None)"
| "lazyDotUntil d (c # cs) =
     (if startsWith (c # cs) d then Some []
      else if isLineTerminator c then None
      else map_option ((#) c) (lazyDotUntil d cs))"

text \<open>\<open>/\*\*(.*?)\*\*/\<close>\<close>

definition strongRx :: matcher where
  "strongRx pre s =
     (if startsWith s ''**'' then
        (case lazyDotUntil ''**'' (drop 2 s) of
           Some g \<Rightarrow> Some (''**'' @ g @ ''**'', [g])
         | None \<Rightarrow> None)
      else None)"

text \<open>\<open>/_(.*?)_/\<close>\<close>

definition emRx :: matcher where
  "emRx pre s =
     (if startsWith s ''_'' then
        (case lazyDotUntil ''_'' (drop 1 s) of
           Some g \<Rightarrow> Some (''_'' @ g @ ''_'', [g])
         | None \<Rightarrow> None)
      else None)"

text \<open>
  \<open>/\[([^\]]+)\]\(([^)]+)\)/\<close>. The greedy \<open>[^\]]+\<close> stops at the first \<open>]\<close>; a shorter
  group would have to be followed by \<open>]\<close> where a character other than \<open>]\<close> stands, so
  no backtracking succeeds. The same holds for \<open>[^)]+\<close> and \<open>)\<close>.
\<close>

definition linkRx :: matcher where
  "linkRx pre s =
     (if startsWith s ''['' then
        (let label = takeWhile (\<lambda>c. c \<noteq> CHR '']'') (drop 1 s);
             r1 = dropWhile (\<lambda>c. c \<noteq> CHR '']'') (drop 1 s)
         in if label \<noteq> [] \<and> startsWith r1 '']('' then
              (let url = takeWhile (\<lambda>c. c \<noteq> CHR '')'') (drop 2 r1);
                   r2 = dropWhile (\<lambda>c. c \<noteq> CHR '')'') (drop 2 r1)
               in if url \<noteq> [] \<and> startsWith r2 '')''
                  then Some (''['' @ label @ '']('' @ url @ '')'', [label, url])
                  else None)
            else None)
      else None)"

text \<open>
  \<open>/(?<!href=")(?<!href=')https?:\/\/[^\s]+/\<close>. The two lookbehinds read the six
  characters before the position. \<open>s?\<close> takes an \<open>s\<close> when there is one (without it
  \<open>:\<close> would have to match that \<open>s\<close>); \<open>[^\s]+\<close> is last in the pattern, so its greedy
  choice stands.
\<close>

definition urlRx :: matcher where
  \<open>urlRx pre s =
     (if startsWith pre (rev ''href="'') \<or> startsWith pre (rev (''href='' @ [CHR 0x27]))
      then None
      else if startsWith s ''http'' then
        (let scheme = (if startsWith (drop 4 s) ''s'' then ''https'' else ''http'');
             r = drop (length scheme) s
         in if startsWith r ''://'' then
              (let body = takeWhile (\<lambda>c. \<not> isSpace c) (drop 3 r)
               in if body \<noteq> [] then Some (scheme @ ''://'' @ body, []) else None)
            else None)
      else None)\<close>

definition strongTmpl :: "string \<Rightarrow> string list \<Rightarrow> string" where
  "strongTmpl m caps = ''<strong>'' @ grp 1 caps @ ''</strong>''"

definition emTmpl :: "string \<Rightarrow> string list \<Rightarrow> string" where
  "emTmpl m caps = ''<em>'' @ grp 1 caps @ ''</em>''"

definition linkTmpl :: "string \<Rightarrow> string list \<Rightarrow> string" where
  \<open>linkTmpl m caps =
     ''<a href="'' @ grp 2 caps @
     ''" target="_blank" rel="noopener noreferrer" class="text-blue-400 hover:underline">'' @
     grp 1 caps @ ''</a>''\<close>

definition urlTmpl :: "string \<Rightarrow> string list \<Rightarrow> string" where
  \<open>urlTmpl m caps =
     ''<a href="'' @ m @
     ''" target="_blank" rel="noopener noreferrer" class="text-blue-400 hover:underline break-all">'' @
     m @ ''</a>''\<close>

definition processInlines :: "string \<Rightarrow> string" where
  "processInlines text =
     replaceAll urlRx urlTmpl []
       (replaceAll linkRx linkTmpl []
         (replaceAll emRx emTmpl []
           (replaceAll strongRx strongTmpl [] text)))"

section \<open>Searching and splitting with a regular expression\<close>

text \<open>
  \<open>rx.test(s)\<close> and \<open>s.match(rx)\<close> used as a condition, for a pattern without the \<open>g\<close>
  flag: is there a match at some position, tried from left to right. A pattern that
  begins with \<open>^\<close> is a matcher that fails when \<open>pre\<close> is not empty.
\<close>

fun rxSearch :: "matcher \<Rightarrow> string \<Rightarrow> string \<Rightarrow> bool" where
  "rxSearch rx pre [] = (rx pre [] \<noteq> None)"
| "rxSearch rx pre (c # cs) = (rx pre (c # cs) \<noteq> None \<or> rxSearch rx (c # pre) cs)"

definition test :: "matcher \<Rightarrow> string \<Rightarrow> bool" where
  "test rx s = rxSearch rx [] s"

text \<open>\<open>s.replace(/rx/, template)\<close> without the \<open>g\<close> flag: only the first match is replaced.\<close>

fun replaceFirst :: "matcher \<Rightarrow> (string \<Rightarrow> string list \<Rightarrow> string) \<Rightarrow> string \<Rightarrow> string \<Rightarrow> string" where
  "replaceFirst rx tmpl pre [] =
     (case rx pre [] of Some (m, caps) \<Rightarrow> tmpl m caps | None \<Rightarrow> [])"
| "replaceFirst rx tmpl pre (c # cs) =
     (case rx pre (c # cs) of
        Some (m, caps) \<Rightarrow> tmpl m caps @ drop (length m) (c # cs)
      | None \<Rightarrow> c # replaceFirst rx tmpl (c # pre) cs)"

text \<open>
  \<open>s.split(rx)\<close>, as the language specification has it: \<open>p\<close> is where the current piece
  starts and \<open>q\<close> where a match is tried. \<open>acc\<close> is the text between \<open>p\<close> and \<open>q\<close>,
  reversed. A match at \<open>q\<close> that ends at \<open>p\<close> (an empty match at the start of the
  piece) moves \<open>q\<close> one character on; any other match closes the piece, and the groups it
  captured are appended to the result after the piece. No match is tried at the end of
  the text. An empty text gives no piece when the pattern matches it, and one empty
  piece otherwise.
\<close>

function splitRx :: "matcher \<Rightarrow> string \<Rightarrow> string \<Rightarrow> string \<Rightarrow> string list" where
  "splitRx rx pre acc [] = [rev acc]"
| "splitRx rx pre acc (c # cs) =
     (case rx pre (c # cs) of
        Some (m, caps) \<Rightarrow>
          (if m = [] then
             (if acc = [] then splitRx rx (c # pre) [c] cs
              else rev acc # caps @ splitRx rx (c # pre) [c] cs)
           else rev acc # caps @ splitRx rx (rev m @ pre) [] (drop (length m) (c # cs)))
      | None \<Rightarrow> splitRx rx (c # pre) (c # acc) cs)"
  by pat_completeness auto
termination
  by (relation "measure (\<lambda>(rx, pre, acc, s). length s)") auto

definition split :: "matcher \<Rightarrow> string \<Rightarrow> string list" where
  "split rx s =
     (if s = [] then (case rx [] [] of Some x \<Rightarrow> [] | None \<Rightarrow> [] # [])
      else splitRx rx [] [] s)"

text \<open>A literal text as a pattern: \<open>s.split('|')\<close>, \<open>/\n/\<close>.\<close>

definition litRx :: "string \<Rightarrow> matcher" where
  "litRx d pre s = (if startsWith s d then Some (d, []) else None)"

text \<open>\<open>xs.findIndex(P)\<close>: the index of the first element that satisfies \<open>P\<close>, or -1.\<close>

fun findIndex :: "('a \<Rightarrow> bool) \<Rightarrow> 'a list \<Rightarrow> int" where
  "findIndex P [] = - 1"
| "findIndex P (x # xs) =
     (if P x then 0 else (let i = findIndex P xs in if i < 0 then - 1 else i + 1))"

section \<open>Block segmentation\<close>

text \<open>\<open>/```markdown\n|```/\<close>: the alternatives are tried in this order.\<close>

definition fenceRx :: matcher where
  "fenceRx pre s =
     (if startsWith s ''```markdown\<newline>'' then Some (''```markdown\<newline>'', [])
      else if startsWith s ''```'' then Some (''```'', [])
      else None)"

definition cleanMarkdown :: "string \<Rightarrow> string" where
  "cleanMarkdown markdown = trim (replaceAll fenceRx (\<lambda>m caps. []) [] markdown)"

text \<open>
  The successive matches of \<open>\r?\n\<close> from a position on. At a CR the optional \<open>\r\<close>
  takes it and LF must follow (without the CR, \<open>\n\<close> would have to match that CR).
\<close>

fun lineBreaks :: "string \<Rightarrow> string list" where
  "lineBreaks (c # d # cs) =
     (if c = CHR 0x0A then [c] # lineBreaks (d # cs)
      else if c = CHR 0x0D \<and> d = CHR 0x0A then [c, d] # lineBreaks cs
      else [])"
| "lineBreaks [c] = (if c = CHR 0x0A then [c] # [] else [])"
| "lineBreaks [] = []"

text \<open>
  \<open>/(\r?\n){2,}/\<close>: the greedy repetition takes every line break of the run, and nothing
  follows it in the pattern. Group 1 is what its last iteration matched.
\<close>

definition blockSepRx :: matcher where
  "blockSepRx pre s =
     (let its = lineBreaks s
      in if 2 \<le> length its then Some (concat its, [last its]) else None)"

definition blocks :: "string \<Rightarrow> string list" where
  "blocks markdown = split blockSepRx (cleanMarkdown markdown)"

section \<open>Rendering one block\<close>

text \<open>\<open>/\r?\n|\r/\<close>\<close>

definition lineSepRx :: matcher where
  "lineSepRx pre s =
     (if startsWith s [CHR 0x0D, CHR 0x0A] then Some ([CHR 0x0D, CHR 0x0A], [])
      else if startsWith s [CHR 0x0A] then Some ([CHR 0x0A], [])
      else if startsWith s [CHR 0x0D] then Some ([CHR 0x0D], [])
      else None)"

text \<open>
  One iteration of \<open>(?:\s*:?-+:?\s*\|)\<close>. The classes of the successive parts are
  disjoint, so each greedy part takes all it can and no shorter choice can succeed.
\<close>

definition sepCell :: "string \<Rightarrow> string option" where
  "sepCell s =
     (let ws1 = takeWhile isSpace s; r1 = dropWhile isSpace s;
          c1 = (if startsWith r1 '':'' then '':'' else []); r2 = drop (length c1) r1;
          ds = takeWhile (\<lambda>c. c = CHR ''-'') r2; r3 = dropWhile (\<lambda>c. c = CHR ''-'') r2;
          c2 = (if startsWith r3 '':'' then '':'' else []); r4 = drop (length c2) r3;
          ws2 = takeWhile isSpace r4; r5 = dropWhile isSpace r4
      in if ds \<noteq> [] \<and> startsWith r5 ''|'' then Some (ws1 @ c1 @ ds @ c2 @ ws2 @ ''|'')
         else None)"

text \<open>The further iterations of the group, as many as match.\<close>

function sepCells :: "string \<Rightarrow> string" where
  "sepCells s =
     (case sepCell s of
        Some m \<Rightarrow> (if length m \<le> length s \<and> m \<noteq> [] then m @ sepCells (drop (length m) s) else m)
      | None \<Rightarrow> [])"
  by pat_completeness auto
termination
proof (relation "measure length")
  fix s m :: string
  assume "length m \<le> length s \<and> m \<noteq> []"
  then have "0 < length m" and "0 < length s"
    by auto
  then show "(drop (length m) s, s) \<in> measure length"
    by simp
qed simp

declare sepCells.simps [simp del]

text \<open>\<open>/\|(?:\s*:?-+:?\s*\|)+/\<close>\<close>

definition sepRx :: matcher where
  "sepRx pre s =
     (if startsWith s ''|'' then
        (case sepCell (drop 1 s) of
           Some m \<Rightarrow> Some (''|'' @ m @ sepCells (drop (length m) (drop 1 s)), [])
         | None \<Rightarrow> None)
      else None)"

text \<open>\<open>/^>\s?/\<close>\<close>

definition quoteMarkRx :: matcher where
  "quoteMarkRx pre s =
     (if pre = [] \<and> startsWith s ''>'' then
        Some (''>'' @ takeWhile isSpace (take 1 (drop 1 s)), [])
      else None)"

text \<open>\<open>/^(\*|-)\s/\<close>\<close>

definition ulRx :: matcher where
  "ulRx pre s =
     (case s of
        c # d # r \<Rightarrow>
          (if pre = [] \<and> (c = CHR ''*'' \<or> c = CHR ''-'') \<and> isSpace d then Some ([c, d], [c] # [])
           else None)
      | _ \<Rightarrow> None)"

text \<open>\<open>/^\d+\.\s/\<close>: after the greedy digits a dot must follow, so fewer digits never match.\<close>

definition olRx :: matcher where
  "olRx pre s =
     (let ds = takeWhile isDigit s; r = dropWhile isDigit s
      in case r of
           c # d # r' \<Rightarrow>
             (if pre = [] \<and> ds \<noteq> [] \<and> c = CHR ''.'' \<and> isSpace d then Some (ds @ [c, d], [])
              else None)
         | _ \<Rightarrow> None)"

text \<open>\<open>/^\s*[-*]\s*/\<close>\<close>

definition ulMarkRx :: matcher where
  "ulMarkRx pre s =
     (let ws1 = takeWhile isSpace s; r = dropWhile isSpace s
      in case r of
           c # r' \<Rightarrow>
             (if pre = [] \<and> (c = CHR ''-'' \<or> c = CHR ''*'')
              then Some (ws1 @ [c] @ takeWhile isSpace r', [])
              else None)
         | [] \<Rightarrow> None)"

text \<open>\<open>/^\s*\d+\.\s*/\<close>\<close>

definition olMarkRx :: matcher where
  "olMarkRx pre s =
     (let ws1 = takeWhile isSpace s; r = dropWhile isSpace s;
          ds = takeWhile isDigit r; r1 = dropWhile isDigit r
      in case r1 of
           c # r' \<Rightarrow>
             (if pre = [] \<and> ds \<noteq> [] \<and> c = CHR ''.''
              then Some (ws1 @ ds @ [c] @ takeWhile isSpace r', [])
              else None)
         | [] \<Rightarrow> None)"

text \<open>The local values of the table branch, named as in the source.\<close>

definition tableRows :: "string \<Rightarrow> string list" where
  "tableRows trimmedBlock =
     filter (\<lambda>row. startsWith (trim row) ''|'') (split lineSepRx trimmedBlock)"

definition isSeparatorRow :: "string \<Rightarrow> bool" where
  "isSeparatorRow row = test sepRx row"

definition separatorIndex :: "string list \<Rightarrow> int" where
  "separatorIndex rows = findIndex isSeparatorRow rows"

text \<open>\<open>row.split('|').slice(1, -1).map(cell => cell.trim())\<close>\<close>

definition rowCells :: "string \<Rightarrow> string list" where
  "rowCells row = map trim (butlast (tl (split (litRx ''|'') row)))"

definition th :: "string \<Rightarrow> string" where
  \<open>th h = ''<th class="p-3 border-b border-neutral-700 text-left font-semibold bg-neutral-800/50">'' @
     processInlines h @ ''</th>''\<close>

definition td :: "string \<Rightarrow> string" where
  \<open>td cell = ''<td class="p-3 border-b border-neutral-800 align-top">'' @
     processInlines cell @ ''</td>''\<close>

definition tr :: "string \<Rightarrow> string" where
  "tr rowStr =
     (let cells = rowCells rowStr
      in if length cells = 0 \<or> list_all (\<lambda>c. c = []) cells then []
         else ''<tr>'' @ join [] (map td cells) @ ''</tr>'')"

definition tableHtml :: "string \<Rightarrow> string \<Rightarrow> string" where
  \<open>tableHtml ths trs =
     ''\<newline>'' @
     ''                    <div class="overflow-x-auto my-4 rounded-lg border border-neutral-800">\<newline>'' @
     ''                        <table class="w-full text-sm">\<newline>'' @
     ''                            <thead class="bg-neutral-800/50">\<newline>'' @
     ''                                <tr>'' @ ths @ ''</tr>\<newline>'' @
     ''                            </thead>\<newline>'' @
     ''                            <tbody>'' @ trs @ ''</tbody>\<newline>'' @
     ''                        </table>\<newline>'' @
     ''                    </div>\<newline>'' @
     ''                ''\<close>

text \<open>
  The table branch: \<open>Some\<close> the markup when the block is rendered as a table, \<open>None\<close> when
  control falls through to the tests that follow.
\<close>

definition renderTable :: "string \<Rightarrow> string option" where
  "renderTable trimmedBlock =
     (if startsWith trimmedBlock ''|'' then
        (let rows = tableRows trimmedBlock
         in if separatorIndex rows > 0 then
              (let headers = rowCells (hd rows);
                   bodyRows = drop (nat (separatorIndex rows + 1)) rows;
                   ths = join [] (map th headers);
                   trs = join [] (map tr bodyRows)
               in Some (tableHtml ths trs))
            else None)
      else None)"

text \<open>\<open>line => line.replace(/^>\s?/, '')\<close>\<close>

definition stripQuoteMark :: "string \<Rightarrow> string" where
  "stripQuoteMark line = replaceFirst quoteMarkRx (\<lambda>m caps. []) [] line"

definition blockquote :: "string \<Rightarrow> string" where
  \<open>blockquote trimmedBlock =
     (let quoteContent = join '' '' (map stripQuoteMark (split lineSepRx trimmedBlock))
      in ''<blockquote class="border-l-4 border-neutral-600 pl-4 my-4 italic text-neutral-400">'' @
         processInlines quoteContent @ ''</blockquote>'')\<close>

definition li :: "matcher \<Rightarrow> string \<Rightarrow> string" where
  \<open>li markRx item =
     (let content = replaceFirst markRx (\<lambda>m caps. []) [] item
      in ''<li class="pb-1">'' @ processInlines content @ ''</li>'')\<close>

definition ul :: "string \<Rightarrow> string" where
  \<open>ul trimmedBlock =
     (let items = join [] (map (li ulMarkRx) (split lineSepRx trimmedBlock))
      in ''<ul class="list-disc list-inside space-y-1 my-2">'' @ items @ ''</ul>'')\<close>

definition ol :: "string \<Rightarrow> string" where
  \<open>ol trimmedBlock =
     (let items = join [] (map (li olMarkRx) (split lineSepRx trimmedBlock))
      in ''<ol class="list-decimal list-inside space-y-1 my-2">'' @ items @ ''</ol>'')\<close>

definition renderParagraph :: "string \<Rightarrow> string" where
  \<open>renderParagraph trimmedBlock =
     ''<p>'' @
     replaceAll (litRx ''\<newline>'') (\<lambda>m caps. ''<br />'') [] (processInlines trimmedBlock) @
     ''</p>''\<close>

text \<open>The callback of \<open>blocks.map\<close>, for a block that is not empty after trimming.\<close>

definition renderTrimmed :: "string \<Rightarrow> string" where
  \<open>renderTrimmed trimmedBlock =
     (case renderTable trimmedBlock of
        Some html \<Rightarrow> html
      | None \<Rightarrow>
          if startsWith trimmedBlock ''### '' then
            ''<h3 class="text-lg font-semibold my-2">'' @ processInlines (drop 4 trimmedBlock) @ ''</h3>''
          else if startsWith trimmedBlock ''## '' then
            ''<h2 class="text-xl font-semibold my-3 border-b border-neutral-600 pb-1">'' @
            processInlines (drop 3 trimmedBlock) @ ''</h2>''
          else if startsWith trimmedBlock ''# '' then
            ''<h1 class="text-2xl font-bold my-4">'' @ processInlines (drop 2 trimmedBlock) @ ''</h1>''
          else if startsWith trimmedBlock ''> '' then blockquote trimmedBlock
          else if test ulRx trimmedBlock then ul trimmedBlock
          else if test olRx trimmedBlock then ol trimmedBlock
          else renderParagraph trimmedBlock)\<close>

definition renderBlock :: "string \<Rightarrow> string" where
  "renderBlock block =
     (let trimmedBlock = trim block
      in if trimmedBlock = [] then [] else renderTrimmed trimmedBlock)"

definition parseMarkdownToHtml :: "string \<Rightarrow> string" where
  "parseMarkdownToHtml markdown = join [] (map renderBlock (blocks markdown))"

section \<open>The content analysis service\<close>

text \<open>
  The generative model is outside the program. A request records which service function
  issued it and the caller's inputs (the fixed instruction texts are constants of the
  request kind); the environment answers a request with a response or with an error, and
  reads a file or fails.
\<close>

record jsfile =
  fileName :: string
  fileType :: string

record web =
  title :: "string option"
  uri :: "string option"

record chunk =
  web :: "web option"

record response =
  responseText :: string
  groundingChunks :: "chunk list option"

datatype request =
    VideoRequest string string string
  | TextRequest string
  | ArticleRequest string bool

record env =
  readAsDataURL :: "jsfile \<Rightarrow> string + string"
  generateContent :: "request \<Rightarrow> string + response"

text \<open>
  \<open>analyzeVideo\<close>: the file is read before the \<open>try\<close>, so a read error is passed on as
  it is; an error of the request is replaced. The request carries the type of the file, the
  second comma-separated field of the data URL (empty here when there is none) and the
  user's instructions.
\<close>

definition analyzeVideo :: "env \<Rightarrow> jsfile \<Rightarrow> string \<Rightarrow> string + string" where
  "analyzeVideo e videoFile userPrompt =
     (case readAsDataURL e videoFile of
        Inl err \<Rightarrow> Inl err
      | Inr result \<Rightarrow>
          (case generateContent e
                  (VideoRequest (fileType videoFile) (join [] (take 1 (drop 1 (split (litRx '','') result))))
                     userPrompt) of
             Inr response \<Rightarrow> Inr (responseText response)
           | Inl err \<Rightarrow> Inl ''Failed to generate content from video.''))"

text \<open>\<open>[...new Set(xs)]\<close>: the distinct elements, in the order of their first occurrence.\<close>

fun newSet :: "'a list \<Rightarrow> 'a list \<Rightarrow> 'a list" where
  "newSet seen [] = seen"
| "newSet seen (x # xs) = (if x \<in> set seen then newSet seen xs else newSet (seen @ [x]) xs)"

text \<open>\<open>web?.uri && web.uri.trim() !== ''\<close>\<close>

definition keptWeb :: "web option \<Rightarrow> bool" where
  "keptWeb w =
     (case w of
        None \<Rightarrow> False
      | Some x \<Rightarrow> (case uri x of None \<Rightarrow> False | Some u \<Rightarrow> u \<noteq> [] \<and> trim u \<noteq> []))"

text \<open>\<open>`[${web.title || web.uri}](${web.uri})`\<close>, for a citation that passed the filter.\<close>

definition sourceLink :: "web option \<Rightarrow> string" where
  "sourceLink w =
     (case w of
        None \<Rightarrow> []
      | Some x \<Rightarrow>
          (let u = (case uri x of Some u \<Rightarrow> u | None \<Rightarrow> []);
               t = (case title x of Some t \<Rightarrow> if t = [] then u else t | None \<Rightarrow> u)
           in ''['' @ t @ '']('' @ u @ '')''))"

definition sources :: "chunk list \<Rightarrow> string list" where
  "sources chunks = map sourceLink (filter keptWeb (map web chunks))"

definition uniqueSources :: "chunk list \<Rightarrow> string list" where
  "uniqueSources chunks = newSet [] (sources chunks)"

text \<open>The report text that \<open>analyzeTextContent\<close> returns for a response.\<close>

definition reportText :: "response \<Rightarrow> string" where
  "reportText r =
     (case groundingChunks r of
        None \<Rightarrow> responseText r
      | Some chunks \<Rightarrow>
          if length chunks > 0 \<and> length (sources chunks) > 0
          then responseText r @ ''\<newline>\<newline>## Sources\<newline>'' @ join ''\<newline>'' (uniqueSources chunks)
          else responseText r)"

definition analyzeTextContent :: "env \<Rightarrow> string \<Rightarrow> string + string" where
  "analyzeTextContent e textContent =
     (case generateContent e (TextRequest textContent) of
        Inr r \<Rightarrow> Inr (reportText r)
      | Inl err \<Rightarrow> Inl ''Failed to generate report from text content.'')"

definition generateArticle :: "env \<Rightarrow> string \<Rightarrow> bool \<Rightarrow> string + string" where
  "generateArticle e summaryText thinking =
     (case generateContent e (ArticleRequest summaryText thinking) of
        Inr r \<Rightarrow> Inr (responseText r)
      | Inl err \<Rightarrow> Inl ''Failed to generate article from summary.'')"

section \<open>The component state and its handlers\<close>

datatype loading = LoadingSummary | LoadingArticle

record state =
  mainInput :: string
  videoFile :: "jsfile option"
  summary :: string
  article :: string
  isLoading :: "loading option"
  error :: string
  isThinkingMode :: bool

text \<open>\<open>handleFileChange\<close>: the argument is \<open>event.target.files?.[0]\<close>.\<close>

definition handleFileChange :: "jsfile option \<Rightarrow> state \<Rightarrow> state" where
  "handleFileChange selected st =
     (case selected of
        None \<Rightarrow> st
      | Some f \<Rightarrow>
          if startsWith (fileType f) ''video/''
          then st\<lparr>videoFile := Some f, mainInput := [], error := []\<rparr>
          else st\<lparr>error := ''Please select a valid video file.'', videoFile := None\<rparr>)"

text \<open>\<open>handleInputChange\<close>: the argument is \<open>e.target.value\<close>.\<close>

definition handleInputChange :: "string \<Rightarrow> state \<Rightarrow> state" where
  "handleInputChange t st = st\<lparr>mainInput := t\<rparr>"

text \<open>
  The two generating handlers are asynchronous. The part before the \<open>await\<close> runs when
  the button is clicked, on the state of that moment; the \<open>try\<close>/\<open>catch\<close>/\<open>finally\<close>
  continuation runs when the request settles, on the state of that later moment, and
  other events may come in between. For \<open>handleGenerateReport\<close>, \<open>reportValid\<close> is the
  negation of the guard of the early return, \<open>reportStart\<close> the updates made before the
  request is issued, \<open>reportRequest\<close> the awaited call (on the values the handler's
  closure holds) and \<open>reportFinish\<close> the continuation.
\<close>

definition reportValid :: "state \<Rightarrow> bool" where
  "reportValid st = (\<not> (videoFile st = None \<and> trim (mainInput st) = []))"

definition reportStart :: "state \<Rightarrow> state" where
  "reportStart st = st\<lparr>error := [], isLoading := Some LoadingSummary, summary := [], article := []\<rparr>"

definition reportRequest :: "env \<Rightarrow> state \<Rightarrow> string + string" where
  "reportRequest e st =
     (case videoFile st of
        Some f \<Rightarrow> analyzeVideo e f (mainInput st)
      | None \<Rightarrow> analyzeTextContent e (mainInput st))"

definition reportFinish :: "string + string \<Rightarrow> state \<Rightarrow> state" where
  "reportFinish outcome st =
     (case outcome of
        Inr result \<Rightarrow> st\<lparr>summary := result\<rparr>
      | Inl err \<Rightarrow> st\<lparr>error := ''Failed to generate the report. Please check the console for details.''\<rparr>)
     \<lparr>isLoading := None\<rparr>"

text \<open>\<open>handleSubmitArticle\<close>, split in the same way.\<close>

definition articleStart :: "state \<Rightarrow> state" where
  "articleStart st = st\<lparr>error := [], isLoading := Some LoadingArticle, article := []\<rparr>"

definition articleRequest :: "env \<Rightarrow> state \<Rightarrow> string + string" where
  "articleRequest e st = generateArticle e (summary st) (isThinkingMode st)"

definition articleFinish :: "string + string \<Rightarrow> state \<Rightarrow> state" where
  "articleFinish outcome st =
     (case outcome of
        Inr result \<Rightarrow> st\<lparr>article := result\<rparr>
      | Inl err \<Rightarrow> st\<lparr>error := ''Failed to generate the article. Please check the console for details.''\<rparr>)
     \<lparr>isLoading := None\<rparr>"

text \<open>
  The component with its requests in flight. A request in flight holds the state its
  handler was called on (the values of its closure).
\<close>

datatype pending = PendingReport state | PendingArticle state

record config =
  ui :: state
  inflight :: "pending list"

text \<open>
  What the handlers do at the click: the early return, or the updates before the \<open>await\<close>
  and one more request in flight.
\<close>

definition handleGenerateReport :: "config \<Rightarrow> config" where
  "handleGenerateReport c =
     (if \<not> reportValid (ui c)
      then c\<lparr>ui := (ui c)\<lparr>error := ''Please paste a transcript or upload a video file to analyze.''\<rparr>\<rparr>
      else c\<lparr>ui := reportStart (ui c), inflight := inflight c @ [PendingReport (ui c)]\<rparr>)"

definition handleSubmitArticle :: "config \<Rightarrow> config" where
  "handleSubmitArticle c =
     (if summary (ui c) = []
      then c\<lparr>ui := (ui c)\<lparr>error := ''Please generate a report first.''\<rparr>\<rparr>
      else c\<lparr>ui := articleStart (ui c), inflight := inflight c @ [PendingArticle (ui c)]\<rparr>)"

text \<open>What a handler does when its request settles in the environment \<open>e\<close>.\<close>

definition settle :: "env \<Rightarrow> pending \<Rightarrow> state \<Rightarrow> state" where
  "settle e p st =
     (case p of
        PendingReport cap \<Rightarrow> reportFinish (reportRequest e cap) st
      | PendingArticle cap \<Rightarrow> articleFinish (articleRequest e cap) st)"

text \<open>
  The \<open>disabled\<close> attribute of the report button. The article button and the thinking-mode
  checkbox are rendered only while there is a summary; the article button is disabled
  while \<open>isLoading\<close> is \<open>'article'\<close>.
\<close>

definition reportDisabled :: "state \<Rightarrow> bool" where
  "reportDisabled st =
     (isLoading st = Some LoadingSummary \<or> (videoFile st = None \<and> trim (mainInput st) = []))"

definition articleDisabled :: "state \<Rightarrow> bool" where
  "articleDisabled st = (summary st = [] \<or> isLoading st = Some LoadingArticle)"

text \<open>
  The events of the page: typing, choosing a file, the two buttons, the checkbox, and the
  settling of the request at a position of the list of requests in flight. \<open>step\<close> is
  \<open>None\<close> for an event that the page does not offer in the configuration.
\<close>

datatype event =
    InputChange string
  | FileChange "jsfile option"
  | ClickReport
  | ClickArticle
  | ThinkingChange bool
  | Settle nat env

fun step :: "event \<Rightarrow> config \<Rightarrow> config option" where
  "step (InputChange t) c = Some (c\<lparr>ui := handleInputChange t (ui c)\<rparr>)"
| "step (FileChange f) c = Some (c\<lparr>ui := handleFileChange f (ui c)\<rparr>)"
| "step ClickReport c = (if reportDisabled (ui c) then None else Some (handleGenerateReport c))"
| "step ClickArticle c = (if articleDisabled (ui c) then None else Some (handleSubmitArticle c))"
| "step (ThinkingChange b) c =
     (if summary (ui c) = [] then None else Some (c\<lparr>ui := (ui c)\<lparr>isThinkingMode := b\<rparr>\<rparr>))"
| "step (Settle i e) c =
     (if i < length (inflight c)
      then Some (c\<lparr>ui := settle e (inflight c ! i) (ui c),
                    inflight := take i (inflight c) @ drop (Suc i) (inflight c)\<rparr>)
      else None)"

fun run :: "event list \<Rightarrow> config \<Rightarrow> config option" where
  "run [] c = Some c"
| "run (ev # evs) c = (case step ev c of None \<Rightarrow> None | Some c' \<Rightarrow> run evs c')"

section \<open>Sample inputs\<close>

definition clip :: jsfile where
  "clip = \<lparr>fileName = ''talk.mp4'', fileType = ''video/mp4''\<rparr>"

definition picture :: jsfile where
  "picture = \<lparr>fileName = ''cat.png'', fileType = ''image/png''\<rparr>"

definition st0 :: state where
  "st0 = \<lparr>mainInput = ''some notes'', videoFile = Some clip, summary = ''# Report'',
          article = ''An article'', isLoading = None, error = ''old error'',
          isThinkingMode = True\<rparr>"

text \<open>An environment in which the file can be read and every request fails.\<close>

definition offline :: env where
  "offline = \<lparr>readAsDataURL = (\<lambda>f. Inr ''data:video/mp4;base64,AAAA''),
              generateContent = (\<lambda>r. Inl ''network down'')\<rparr>"

definition citations :: "chunk list" where
  "citations =
     [\<lparr>web = Some \<lparr>title = Some ''A'', uri = Some ''u1''\<rparr>\<rparr>,
      \<lparr>web = Some \<lparr>title = Some ''A'', uri = Some ''u1''\<rparr>\<rparr>,
      \<lparr>web = Some \<lparr>title = Some ''B'', uri = Some []\<rparr>\<rparr>]"

text \<open>An environment whose answer to every request carries these citations.\<close>

definition grounded :: env where
  "grounded = \<lparr>readAsDataURL = (\<lambda>f. Inl ''not read''),
               generateContent =
                 (\<lambda>r. Inr \<lparr>responseText = ''# Report'', groundingChunks = Some citations\<rparr>)\<rparr>"


text \<open>The page showing a report and an article, with no request in flight.\<close>

definition page0 :: config where
  "page0 = \<lparr>ui = st0, inflight = []\<rparr>"


definition sampleDoc :: string where
  "sampleDoc = ''# T\<newline>\<newline>hello\<newline>world\<newline>\<newline>- a\<newline>- b''"

definition tableBlock :: string where
  "tableBlock = ''| A | B |\<newline>|---|---|\<newline>| x | y |''"

definition pipeBlock :: string where
  "pipeBlock = ''| a |\<newline>| b |---| c |''"

definition fencedReport :: string where
  "fencedReport = ''```markdown\<newline># T\<newline>\<newline>a\<newline>b\<newline>\<newline>\<newline>c```''"

section \<open>Auxiliary notions\<close>

text \<open>
  A separator row as the specification words it: the row has cells, and every cell
  consists only of dashes and colons. The program's own test is \<open>isSeparatorRow\<close>.
\<close>

definition specSeparatorRow :: "string \<Rightarrow> bool" where
  "specSeparatorRow row =
     (let cells = rowCells row
      in cells \<noteq> [] \<and>
         list_all (\<lambda>cell. cell \<noteq> [] \<and> list_all (\<lambda>c. c = CHR ''-'' \<or> c = CHR '':'') cell) cells)"

text \<open>The number of backticks a text begins with.\<close>

definition ticks :: "string \<Rightarrow> nat" where
  "ticks s = length (takeWhile (\<lambda>c. c = CHR 0x60) s)"

section \<open>Basic facts\<close>

lemma startsWith_Cons: "startsWith s (c # p) = (\<exists>r. s = c # r \<and> startsWith r p)"
  by (cases s) (auto simp: startsWith_def)

lemma startsWith_Nil: "startsWith s []"
  by (simp add: startsWith_def)

lemma join_Nil_concat: "join [] xs = concat xs"
  by (induction xs rule: induct_list012) simp_all

lemma findIndex_none: "\<forall>x \<in> set xs. \<not> P x \<Longrightarrow> findIndex P xs = - 1"
  by (induction xs) simp_all

text \<open>A pattern that begins with \<open>^\<close> matches at the first position only.\<close>

lemma rxSearch_anchored:
  assumes "\<And>p s. p \<noteq> [] \<Longrightarrow> rx p s = None"
  shows "pre \<noteq> [] \<Longrightarrow> \<not> rxSearch rx pre s"
  by (induction s arbitrary: pre) (simp_all add: assms)

lemma replaceFirst_anchored:
  assumes "\<And>p s. p \<noteq> [] \<Longrightarrow> rx p s = None"
  shows "pre \<noteq> [] \<Longrightarrow> replaceFirst rx tmpl pre s = s"
  by (induction s arbitrary: pre) (simp_all add: assms)

lemma ulRx_anchored: "p \<noteq> [] \<Longrightarrow> ulRx p s = None"
  by (simp add: ulRx_def split: list.splits)

lemma olRx_anchored: "p \<noteq> [] \<Longrightarrow> olRx p s = None"
  by (simp add: olRx_def Let_def split: list.splits)

lemma quoteMarkRx_anchored: "p \<noteq> [] \<Longrightarrow> quoteMarkRx p s = None"
  by (simp add: quoteMarkRx_def)

lemma test_ulRx: "test ulRx (c # r) = (ulRx [] (c # r) \<noteq> None)"
  using rxSearch_anchored [of ulRx "[c]" r] by (simp add: test_def ulRx_anchored)

lemma test_olRx: "test olRx (c # r) = (olRx [] (c # r) \<noteq> None)"
  using rxSearch_anchored [of olRx "[c]" r] by (simp add: test_def olRx_anchored)

section \<open>Inline spans\<close>

text \<open>
  C4. For the line \<open>[x](http://a.com) http://b.com\<close> the inline transformer returns exactly
  two hyperlink elements, the first with target \<open>http://a.com\<close> (from the markdown link)
  and the second with target \<open>http://b.com\<close> (from the bare URL); the URL inside the
  \<open>href\<close> attribute of the first is not wrapped again.
\<close>

theorem processInlines_link_then_url:
  \<open>processInlines ''[x](http://a.com) http://b.com'' =
     ''<a href="http://a.com" target="_blank" rel="noopener noreferrer" class="text-blue-400 hover:underline">x</a>'' @
     '' '' @
     ''<a href="http://b.com" target="_blank" rel="noopener noreferrer" class="text-blue-400 hover:underline break-all">http://b.com</a>''\<close>
  by code_simp

section \<open>Block segmentation\<close>

lemma ticks_simps [simp]:
  "ticks [] = 0"
  "ticks (c # cs) = (if c = CHR 0x60 then Suc (ticks cs) else 0)"
  by (simp_all add: ticks_def)

lemma startsWith_fence: "startsWith s ''```'' \<longleftrightarrow> (\<exists>t. s = CHR 0x60 # CHR 0x60 # CHR 0x60 # t)"
  by (auto simp: startsWith_Cons startsWith_Nil)

lemma fenceRx_None: "fenceRx pre s = None \<longleftrightarrow> \<not> startsWith s ''```''"
  by (auto simp: fenceRx_def startsWith_Cons startsWith_Nil)

lemma fenceRx_Some:
  "fenceRx pre s = Some (m, caps) \<Longrightarrow>
     caps = [] \<and> (m = ''```'' \<or> m = ''```markdown\<newline>'') \<and> s = m @ drop (length m) s"
  by (auto simp: fenceRx_def startsWith_Cons startsWith_Nil split: if_splits)

lemma ticks_two: "2 \<le> ticks x \<Longrightarrow> \<exists>t. x = CHR 0x60 # CHR 0x60 # t"
proof -
  assume a: "2 \<le> ticks x"
  then obtain c1 r1 where x: "x = c1 # r1"
    by (cases x) auto
  with a have c1: "c1 = CHR 0x60" and t1: "1 \<le> ticks r1"
    by (auto split: if_splits)
  then obtain c2 r2 where r1: "r1 = c2 # r2"
    by (cases r1) auto
  with t1 have "c2 = CHR 0x60"
    by (auto split: if_splits)
  with x c1 r1 show ?thesis
    by simp
qed

lemma prefix_fence: "prefix ''```'' (c # x) \<longleftrightarrow> c = CHR 0x60 \<and> prefix ''``'' x"
  by auto

lemma prefix_two_ticks: "prefix ''``'' x \<Longrightarrow> 2 \<le> ticks x"
  by (auto simp: prefix_def)

lemma no_fence_ticks: "\<not> sublist ''```'' x \<Longrightarrow> ticks x \<le> 2"
proof (rule ccontr)
  assume n: "\<not> sublist ''```'' x" and "\<not> ticks x \<le> 2"
  then have "2 \<le> ticks x" and "3 \<le> ticks x"
    by simp_all
  then obtain t where x: "x = CHR 0x60 # CHR 0x60 # t"
    using ticks_two by blast
  with \<open>3 \<le> ticks x\<close> obtain t' where "t = CHR 0x60 # t'"
    by (cases t) (auto split: if_splits)
  with x have "prefix ''```'' x"
    by simp
  with n show False
    by (meson prefix_imp_sublist)
qed

text \<open>
  After the replacement no fence marker is left. The induction carries a second fact:
  the result begins with at most as many backticks as the text, so a copied backtick
  cannot complete a marker with what follows it.
\<close>

lemma replaceAll_fence:
  "\<not> sublist ''```'' (replaceAll fenceRx (\<lambda>m caps. []) pre s) \<and>
   ticks (replaceAll fenceRx (\<lambda>m caps. []) pre s) \<le> ticks s"
proof (induction s arbitrary: pre rule: length_induct)
  case (1 s)
  show ?case
  proof (cases s)
    case Nil
    then show ?thesis
      by (simp add: fenceRx_def startsWith_def)
  next
    case (Cons c cs)
    show ?thesis
    proof (cases "fenceRx pre s")
      case None
      then have ns: "\<not> startsWith s ''```''"
        by (simp add: fenceRx_None)
      from None Cons have r: "replaceAll fenceRx (\<lambda>m caps. []) pre s =
          c # replaceAll fenceRx (\<lambda>m caps. []) (c # pre) cs"
        by simp
      from 1 Cons have ih: "\<not> sublist ''```'' (replaceAll fenceRx (\<lambda>m caps. []) (c # pre) cs)"
        "ticks (replaceAll fenceRx (\<lambda>m caps. []) (c # pre) cs) \<le> ticks cs"
        by simp_all
      have "\<not> prefix ''```'' (c # replaceAll fenceRx (\<lambda>m caps. []) (c # pre) cs)"
      proof
        assume "prefix ''```'' (c # replaceAll fenceRx (\<lambda>m caps. []) (c # pre) cs)"
        with prefix_fence have c: "c = CHR 0x60"
          and "prefix ''``'' (replaceAll fenceRx (\<lambda>m caps. []) (c # pre) cs)"
          by blast+
        then have "2 \<le> ticks cs"
          using prefix_two_ticks ih(2) by fastforce
        then obtain t where "cs = CHR 0x60 # CHR 0x60 # t"
          using ticks_two by blast
        with c Cons ns show False
          by (simp add: startsWith_fence)
      qed
      with ih(1) have "\<not> sublist ''```'' (c # replaceAll fenceRx (\<lambda>m caps. []) (c # pre) cs)"
        by (simp add: sublist_Cons_right)
      moreover have "ticks (c # replaceAll fenceRx (\<lambda>m caps. []) (c # pre) cs) \<le> ticks (c # cs)"
        using ih(2) by auto
      ultimately show ?thesis
        using r Cons by simp
    next
      case (Some a)
      obtain m caps where a: "a = (m, caps)"
        by (cases a)
      with Some have f: "caps = []" "m = ''```'' \<or> m = ''```markdown\<newline>''"
        "s = m @ drop (length m) s"
        using fenceRx_Some by blast+
      then have m: "m \<noteq> []"
        by auto
      with Some a Cons have r: "replaceAll fenceRx (\<lambda>m caps. []) pre s =
          replaceAll fenceRx (\<lambda>m caps. []) (rev m @ pre) (drop (length m) s)"
        by simp
      from f(3) obtain t where t: "s = m @ t" "drop (length m) s = t"
        by metis
      from m t(1) have "length t < length s"
        by simp
      with 1 have ih: "\<not> sublist ''```'' (replaceAll fenceRx (\<lambda>m caps. []) (rev m @ pre) t)"
        "ticks (replaceAll fenceRx (\<lambda>m caps. []) (rev m @ pre) t) \<le> ticks t"
        by simp_all
      have "ticks (replaceAll fenceRx (\<lambda>m caps. []) (rev m @ pre) t) \<le> ticks s"
      proof (cases "m = ''```''")
        case True
        with t(1) have "ticks s = 3 + ticks t"
          by simp
        with ih(2) show ?thesis
          by simp
      next
        case False
        with f(2) t(1) have "ticks s = 3"
          by simp
        with no_fence_ticks [OF ih(1)] show ?thesis
          by simp
      qed
      with ih(1) r t(2) show ?thesis
        by simp
    qed
  qed
qed

lemma replaceAll_fence_subseq: "subseq (replaceAll fenceRx (\<lambda>m caps. []) pre s) s"
proof (induction s arbitrary: pre rule: length_induct)
  case (1 s)
  show ?case
  proof (cases s)
    case Nil
    then show ?thesis
      by (simp add: fenceRx_def startsWith_def)
  next
    case (Cons c cs)
    show ?thesis
    proof (cases "fenceRx pre s")
      case None
      with 1 Cons show ?thesis
        by simp
    next
      case (Some a)
      obtain m caps where a: "a = (m, caps)"
        by (cases a)
      with Some have f: "m = ''```'' \<or> m = ''```markdown\<newline>''" "s = m @ drop (length m) s"
        using fenceRx_Some by blast+
      then have m: "m \<noteq> []"
        by auto
      from f(2) obtain t where t: "s = m @ t" "drop (length m) s = t"
        by metis
      from m t(1) have "length t < length s"
        by simp
      with 1 have "subseq (replaceAll fenceRx (\<lambda>m caps. []) (rev m @ pre) t) t"
        by simp
      then have "subseq (replaceAll fenceRx (\<lambda>m caps. []) (rev m @ pre) t) (m @ t)"
        by (rule subseq_drop_many)
      with Some a Cons m t show ?thesis
        by simp
    qed
  qed
qed

lemma sublist_trim: "sublist (trim x) x"
proof -
  have "prefix (trim x) (dropWhile isSpace x)"
    unfolding trim_def by (metis suffix_dropWhile suffix_to_prefix rev_rev_ident)
  moreover have "suffix (dropWhile isSpace x) x"
    by (rule suffix_dropWhile)
  ultimately show ?thesis
    by (meson prefix_imp_sublist suffix_imp_sublist sublist_order.order_trans)
qed

lemma trim_ends:
  assumes "trim x \<noteq> []"
  shows "\<not> isSpace (hd (trim x)) \<and> \<not> isSpace (last (trim x))"
proof -
  define t where "t = dropWhile isSpace x"
  define u where "u = dropWhile isSpace (rev t)"
  have tr: "trim x = rev u"
    by (simp add: trim_def t_def u_def)
  with assms have u: "u \<noteq> []"
    by simp
  then have 1: "\<not> isSpace (hd u)"
    unfolding u_def by (rule hd_dropWhile)
  from u have t: "t \<noteq> []"
    by (auto simp: u_def)
  then have 2: "\<not> isSpace (hd t)"
    unfolding t_def by (rule hd_dropWhile)
  have "rev t = takeWhile isSpace (rev t) @ u"
    by (simp add: u_def)
  with u have "last (rev t) = last u"
    by (metis last_appendR)
  with t have 3: "last u = hd t"
    by (simp add: last_rev)
  from u have "hd (rev u) = last u" "last (rev u) = hd u"
    by (simp_all add: hd_rev last_rev)
  with 1 2 3 tr show ?thesis
    by simp
qed

lemma concat_renderBlock:
  "concat (map renderBlock bs) =
     concat (map renderTrimmed (filter (\<lambda>b. b \<noteq> []) (map trim bs)))"
  by (induction bs) (simp_all add: renderBlock_def)

lemma prefix_lineBreaks: "prefix (concat (lineBreaks s)) s"
  by (induction s rule: lineBreaks.induct) simp_all

lemma blockSepRx_Some:
  assumes "blockSepRx pre s = Some (m, caps)"
  shows "m \<noteq> [] \<and> prefix m s \<and> (\<exists>g. caps = [g] \<and> suffix g m)"
proof -
  from assms have its: "2 \<le> length (lineBreaks s)" "m = concat (lineBreaks s)"
    "caps = [last (lineBreaks s)]"
    by (auto simp: blockSepRx_def Let_def split: if_splits)
  then have ne: "lineBreaks s \<noteq> []"
    by auto
  have "\<forall>x \<in> set (lineBreaks s). x \<noteq> []"
    by (induction s rule: lineBreaks.induct) auto
  with ne its(2) have "m \<noteq> []"
    by (cases "lineBreaks s") auto
  moreover have "prefix m s"
    using its(2) prefix_lineBreaks by simp
  moreover from ne have "lineBreaks s = butlast (lineBreaks s) @ [last (lineBreaks s)]"
    by simp
  then have "suffix (last (lineBreaks s)) m"
    unfolding its(2) by (metis concat.simps concat_append suffixI append_Nil2)
  ultimately show ?thesis
    using its(3) by simp
qed

text \<open>
  The pieces and the captured line breaks, concatenated in the order of the result, are
  read off the text from left to right.
\<close>

lemma splitRx_blockSep_subseq:
  "subseq (concat (splitRx blockSepRx pre acc s)) (rev acc @ s)"
proof (induction s arbitrary: pre acc rule: length_induct)
  case (1 s)
  show ?case
  proof (cases s)
    case Nil
    then show ?thesis
      by simp
  next
    case (Cons c cs)
    show ?thesis
    proof (cases "blockSepRx pre s")
      case None
      from Cons have "length cs < length s"
        by simp
      with 1 have "subseq (concat (splitRx blockSepRx (c # pre) (c # acc) cs)) (rev (c # acc) @ cs)"
        by blast
      with None Cons show ?thesis
        by simp
    next
      case (Some a)
      obtain m caps where a: "a = (m, caps)"
        by (cases a)
      with Some obtain g where f: "m \<noteq> []" "prefix m s" "caps = [g]" "suffix g m"
        using blockSepRx_Some by blast
      from f(2) obtain t where t: "s = m @ t"
        by (auto simp: prefix_def)
      then have d: "drop (length m) s = t"
        by simp
      from f(1) t have "length t < length s"
        by simp
      with 1 have "subseq (concat (splitRx blockSepRx (rev m @ pre) [] t)) (rev [] @ t)"
        by blast
      then have ih: "subseq (concat (splitRx blockSepRx (rev m @ pre) [] t)) t"
        by simp
      from f(4) have sg: "subseq g m"
        by (rule suffix_imp_subseq)
      from sg ih have "subseq (g @ concat (splitRx blockSepRx (rev m @ pre) [] t)) (m @ t)"
        by (rule list_emb_append_mono)
      then have "subseq (rev acc @ g @ concat (splitRx blockSepRx (rev m @ pre) [] t)) (rev acc @ m @ t)"
        by (simp add: subseq_append')
      with Some a Cons f(1) f(3) d t show ?thesis
        by simp
    qed
  qed
qed

lemma blocks_subseq: "subseq (concat (blocks md)) (cleanMarkdown md)"
proof (cases "cleanMarkdown md = []")
  case True
  then show ?thesis
    by (simp add: blocks_def split_def blockSepRx_def)
next
  case False
  then show ?thesis
    using splitRx_blockSep_subseq [of "[]" "[]" "cleanMarkdown md"]
    by (simp add: blocks_def split_def)
qed

text \<open>The pattern of the block separator does not look behind.\<close>

lemma blockSepRx_pre: "blockSepRx p s = blockSepRx q s"
  by (simp add: blockSepRx_def)

lemma lineBreaks_append_stop:
  "u \<noteq> [] \<Longrightarrow> \<not> isLineTerminator (last u) \<Longrightarrow> lineBreaks (u @ y) = lineBreaks u"
proof (induction u rule: lineBreaks.induct)
  case (1 c d cs)
  show ?case
  proof (cases "c = CHR 0x0A")
    case True
    with 1 show ?thesis
      by simp
  next
    case nl: False
    show ?thesis
    proof (cases "c = CHR 0x0D \<and> d = CHR 0x0A")
      case True
      with "1.prems" have "cs \<noteq> []"
        by (auto simp: isLineTerminator_def)
      with 1 nl True show ?thesis
        by simp
    next
      case False
      with nl show ?thesis
        by auto
    qed
  qed
next
  case (2 c)
  then show ?case
    by (cases y) (simp_all add: isLineTerminator_def)
next
  case 3
  then show ?case
    by simp
qed

lemma lineBreaks_run:
  "set bs \<subseteq> {[CHR 0x0A], [CHR 0x0D, CHR 0x0A]} \<Longrightarrow>
     lineBreaks (concat bs @ rest) = bs @ lineBreaks rest"
proof (induction bs)
  case Nil
  then show ?case
    by simp
next
  case (Cons b bs)
  then have ih: "lineBreaks (concat bs @ rest) = bs @ lineBreaks rest"
    by simp
  from Cons.prems consider "b = [CHR 0x0A]" | "b = [CHR 0x0D, CHR 0x0A]"
    by auto
  then show ?case
  proof cases
    case 1
    with ih show ?thesis
      by (cases "concat bs @ rest") simp_all
  next
    case 2
    with ih show ?thesis
      by simp
  qed
qed

text \<open>No separator begins inside a piece that has none and does not end with a line terminator.\<close>

lemma splitRx_piece:
  "\<not> rxSearch blockSepRx p a \<Longrightarrow> a \<noteq> [] \<Longrightarrow> \<not> isLineTerminator (last a) \<Longrightarrow>
     splitRx blockSepRx pre acc (a @ y) = splitRx blockSepRx (rev a @ pre) (rev a @ acc) y"
proof (induction a arbitrary: p pre acc)
  case Nil
  then show ?case
    by simp
next
  case (Cons c a)
  from Cons.prems(1) have n: "blockSepRx p (c # a) = None" and r: "\<not> rxSearch blockSepRx (c # p) a"
    unfolding rxSearch.simps by blast+
  from Cons.prems(2,3) have "lineBreaks ((c # a) @ y) = lineBreaks (c # a)"
    by (rule lineBreaks_append_stop)
  with n have m: "blockSepRx pre (c # a @ y) = None"
    by (simp add: blockSepRx_def)
  show ?case
  proof (cases "a = []")
    case True
    with m show ?thesis
      by simp
  next
    case False
    with Cons.prems(3) have "\<not> isLineTerminator (last a)"
      by simp
    from Cons.IH [OF r False this] m show ?thesis
      by simp
  qed
qed

lemma splitRx_blockSep_pre:
  "splitRx blockSepRx pre acc s = splitRx blockSepRx pre' acc s"
proof (induction s arbitrary: pre pre' acc rule: length_induct)
  case (1 s)
  show ?case
  proof (cases s)
    case Nil
    then show ?thesis
      by simp
  next
    case (Cons c cs)
    have e: "blockSepRx pre (c # cs) = blockSepRx pre' (c # cs)"
      by (rule blockSepRx_pre)
    show ?thesis
    proof (cases "blockSepRx pre' (c # cs)")
      case None
      from 1 Cons have "splitRx blockSepRx (c # pre) (c # acc) cs = splitRx blockSepRx (c # pre') (c # acc) cs"
        by simp
      with None e Cons show ?thesis
        by simp
    next
      case (Some a)
      obtain m caps where a: "a = (m, caps)"
        by (cases a)
      from 1 Cons have 2: "splitRx blockSepRx (c # pre) [c] cs = splitRx blockSepRx (c # pre') [c] cs"
        by simp
      have 3: "m \<noteq> [] \<Longrightarrow> splitRx blockSepRx (rev m @ pre) [] (drop (length m) (c # cs)) =
          splitRx blockSepRx (rev m @ pre') [] (drop (length m) (c # cs))"
      proof -
        assume "m \<noteq> []"
        then have "length (drop (length m) (c # cs)) < length s"
          using Cons by (cases m) simp_all
        with 1 show ?thesis
          by blast
      qed
      from Some a e Cons 2 3 show ?thesis
        by simp
    qed
  qed
qed

lemma split_one_block: "\<not> test blockSepRx t \<Longrightarrow> split blockSepRx t = [t]"
proof -
  have "\<not> rxSearch blockSepRx p t \<Longrightarrow> splitRx blockSepRx pre acc t = [rev acc @ t]" for p pre acc
  proof (induction t arbitrary: p pre acc)
    case Nil
    then show ?case
      by simp
  next
    case (Cons c t)
    from Cons.prems have "blockSepRx p (c # t) = None" and r: "\<not> rxSearch blockSepRx (c # p) t"
      unfolding rxSearch.simps by blast+
    then have "blockSepRx pre (c # t) = None"
      using blockSepRx_pre by metis
    with Cons.IH [OF r] show ?case
      by simp
  qed
  then show "\<not> test blockSepRx t \<Longrightarrow> split blockSepRx t = [t]"
    by (cases t) (auto simp: test_def split_def blockSepRx_def)
qed

lemma split_at_run:
  assumes a: "\<not> test blockSepRx a" "a = [] \<or> \<not> isLineTerminator (last a)"
    and bs: "2 \<le> length bs" "set bs \<subseteq> {[CHR 0x0A], [CHR 0x0D, CHR 0x0A]}"
    and rest: "lineBreaks rest = []"
  shows "split blockSepRx (a @ concat bs @ rest) = a # last bs # split blockSepRx rest"
proof -
  define m where "m = concat bs"
  from bs have ne: "bs \<noteq> []"
    by auto
  from bs(2) have "\<forall>b \<in> set bs. b \<noteq> []"
    by auto
  with ne have cne: "m \<noteq> []"
    unfolding m_def by (cases bs) auto
  then obtain c cs where ccs: "m @ rest = c # cs"
    by (cases "m @ rest") auto
  have lb: "lineBreaks (m @ rest) = bs"
    unfolding m_def using lineBreaks_run [OF bs(2)] rest by simp
  with bs(1) have m: "blockSepRx q (m @ rest) = Some (m, [last bs])" for q
    by (simp add: blockSepRx_def m_def)
  have tail: "splitRx blockSepRx q [] rest = split blockSepRx rest" for q
  proof (cases rest)
    case Nil
    then show ?thesis
      by (simp add: split_def blockSepRx_def)
  next
    case (Cons x xs)
    then show ?thesis
      using splitRx_blockSep_pre [of q "[]" rest "[]"] by (simp add: split_def)
  qed
  have at_run: "splitRx blockSepRx q acc (m @ rest) = rev acc # last bs # split blockSepRx rest"
    for q acc
  proof -
    have d: "drop (length m) (c # cs) = rest"
      using ccs by (metis append_eq_conv_conj)
    have "splitRx blockSepRx q acc (c # cs) =
        rev acc # [last bs] @ splitRx blockSepRx (rev m @ q) [] (drop (length m) (c # cs))"
      using m [of q] cne by (simp add: ccs)
    with d tail ccs show ?thesis
      by simp
  qed
  have whole: "a @ m @ rest \<noteq> []"
    using cne by simp
  show ?thesis
  proof (cases "a = []")
    case True
    with at_run [of "[]" "[]"] whole show ?thesis
      by (simp add: split_def m_def)
  next
    case False
    with a(2) have l: "\<not> isLineTerminator (last a)"
      by simp
    from a(1) have "\<not> rxSearch blockSepRx [] a"
      by (simp add: test_def)
    from splitRx_piece [OF this False l, of "[]" "[]" "m @ rest"]
    have "splitRx blockSepRx [] [] (a @ m @ rest) =
        splitRx blockSepRx (rev a) (rev a) (m @ rest)"
      by simp
    with at_run [of "rev a" "rev a"] whole show ?thesis
      by (simp add: split_def m_def)
  qed
qed

lemma fenceRx_pre: "fenceRx p s = fenceRx q s"
  by (simp add: fenceRx_def)

lemma replaceAll_fence_pre:
  "replaceAll fenceRx t pre s = replaceAll fenceRx t pre' s"
proof (induction s arbitrary: pre pre' rule: length_induct)
  case (1 s)
  show ?case
  proof (cases s)
    case Nil
    then show ?thesis
      by (simp add: fenceRx_def startsWith_def)
  next
    case (Cons c cs)
    have e: "fenceRx pre (c # cs) = fenceRx pre' (c # cs)"
      by (rule fenceRx_pre)
    show ?thesis
    proof (cases "fenceRx pre' (c # cs)")
      case None
      from 1 Cons have "replaceAll fenceRx t (c # pre) cs = replaceAll fenceRx t (c # pre') cs"
        by simp
      with None e Cons show ?thesis
        by simp
    next
      case (Some a)
      obtain m caps where a: "a = (m, caps)"
        by (cases a)
      from 1 Cons have 2: "replaceAll fenceRx t (c # pre) cs = replaceAll fenceRx t (c # pre') cs"
        by simp
      have 3: "m \<noteq> [] \<Longrightarrow> replaceAll fenceRx t (rev m @ pre) (drop (length m) (c # cs)) =
          replaceAll fenceRx t (rev m @ pre') (drop (length m) (c # cs))"
      proof -
        assume "m \<noteq> []"
        then have "length (drop (length m) (c # cs)) < length s"
          using Cons by (cases m) simp_all
        with 1 show ?thesis
          by blast
      qed
      from Some a e Cons 2 3 show ?thesis
        by simp
    qed
  qed
qed

text \<open>No marker begins inside a text without markers when no backtick meets its end.\<close>

lemma no_fence_inside:
  assumes a: "\<not> sublist ''```'' a"
    and j: "(a = [] \<or> last a \<noteq> CHR 0x60) \<or> (x = [] \<or> hd x \<noteq> CHR 0x60)"
    and u: "u \<noteq> []" "suffix u a"
  shows "\<not> startsWith (u @ x) ''```''"
proof
  assume "startsWith (u @ x) ''```''"
  then obtain t where t: "u @ x = CHR 0x60 # CHR 0x60 # CHR 0x60 # t"
    by (auto simp: startsWith_fence)
  from u have la: "a \<noteq> []" "last a = last u"
    by (auto simp: suffix_def)
  from u(1) obtain c1 u1 where u1: "u = c1 # u1"
    by (cases u) auto
  show False
  proof (cases u1)
    case Nil
    with u1 t have "last u = CHR 0x60" "x \<noteq> []" "hd x = CHR 0x60"
      by auto
    with la j show False
      by auto
  next
    case (Cons c2 u2)
    show False
    proof (cases u2)
      case Nil
      with Cons u1 t have "last u = CHR 0x60" "x \<noteq> []" "hd x = CHR 0x60"
        by auto
      with la j show False
        by auto
    next
      case c3: (Cons c3 u3)
      with Cons u1 t have "prefix ''```'' u"
        by auto
      with u(2) have "sublist ''```'' a"
        by (meson prefix_imp_sublist suffix_imp_sublist sublist_order.order_trans)
      with a show False
        by simp
    qed
  qed
qed

lemma replaceAll_fence_app:
  assumes "\<And>u. u \<noteq> [] \<Longrightarrow> suffix u a \<Longrightarrow> \<not> startsWith (u @ x) ''```''"
  shows "replaceAll fenceRx t pre (a @ x) = a @ replaceAll fenceRx t (rev a @ pre) x"
  using assms
proof (induction a arbitrary: pre)
  case Nil
  then show ?case
    by simp
next
  case (Cons c a)
  have "\<not> startsWith ((c # a) @ x) ''```''"
    by (rule Cons.prems) simp_all
  then have n: "fenceRx pre (c # a @ x) = None"
    by (simp add: fenceRx_None)
  have "replaceAll fenceRx t (c # pre) (a @ x) = a @ replaceAll fenceRx t (rev a @ c # pre) x"
  proof (rule Cons.IH)
    fix u :: string
    assume "u \<noteq> []" "suffix u a"
    then show "\<not> startsWith (u @ x) ''```''"
      using Cons.prems [of u] by (simp add: suffix_ConsI)
  qed
  with n show ?case
    by simp
qed

lemma replaceAll_fence_app':
  assumes "\<not> sublist ''```'' a"
    and "(a = [] \<or> last a \<noteq> CHR 0x60) \<or> (x = [] \<or> hd x \<noteq> CHR 0x60)"
  shows "replaceAll fenceRx t [] (a @ x) = a @ replaceAll fenceRx t [] x"
  using replaceAll_fence_app [of a x t "[]"] no_fence_inside [OF assms]
    replaceAll_fence_pre [of t "rev a @ []" x "[]"]
  by simp

lemma replaceAll_fence_id:
  "\<not> sublist ''```'' s \<Longrightarrow> replaceAll fenceRx (\<lambda>m caps. []) [] s = s"
  using replaceAll_fence_app' [of s "[]" "\<lambda>m caps. []"]
  by (simp add: fenceRx_def startsWith_def)

lemma replaceAll_fence_marker:
  "replaceAll fenceRx (\<lambda>m caps. []) [] (''```'' @ b) =
     replaceAll fenceRx (\<lambda>m caps. []) []
       (if startsWith b ''markdown\<newline>'' then drop (length ''markdown\<newline>'') b else b)"
proof (cases "startsWith b ''markdown\<newline>''")
  case True
  then have "fenceRx [] (''```'' @ b) = Some (''```markdown\<newline>'', [])"
    by (simp add: fenceRx_def startsWith_def)
  then have "replaceAll fenceRx (\<lambda>m caps. []) [] (''```'' @ b) =
      replaceAll fenceRx (\<lambda>m caps. []) (rev ''```markdown\<newline>'')
        (drop (length ''markdown\<newline>'') b)"
    by simp
  also have "\<dots> = replaceAll fenceRx (\<lambda>m caps. []) [] (drop (length ''markdown\<newline>'') b)"
    by (rule replaceAll_fence_pre)
  finally show ?thesis
    using True by simp
next
  case False
  then have "fenceRx [] (''```'' @ b) = Some (''```'', [])"
    by (simp add: fenceRx_def startsWith_def)
  then have "replaceAll fenceRx (\<lambda>m caps. []) [] (''```'' @ b) =
      replaceAll fenceRx (\<lambda>m caps. []) (rev ''```'') b"
    by simp
  also have "\<dots> = replaceAll fenceRx (\<lambda>m caps. []) [] b"
    by (rule replaceAll_fence_pre)
  finally show ?thesis
    using False by simp
qed

lemma cleanMarkdown_leftmost_marker:
  assumes "\<not> sublist ''```'' a" "a = [] \<or> last a \<noteq> CHR 0x60"
  shows "cleanMarkdown (a @ ''```'' @ b) =
     cleanMarkdown (a @ (if startsWith b ''markdown\<newline>'' then drop (length ''markdown\<newline>'') b else b))"
proof -
  from assms have j: "(a = [] \<or> last a \<noteq> CHR 0x60) \<or> (x = [] \<or> hd x \<noteq> CHR 0x60)" for x
    by blast
  show ?thesis
    unfolding cleanMarkdown_def
    using replaceAll_fence_app' [OF assms(1) j] replaceAll_fence_marker [of b]
    by simp
qed

lemma trim_id: "x = [] \<or> \<not> isSpace (hd x) \<and> \<not> isSpace (last x) \<Longrightarrow> trim x = x"
proof (cases "x = []")
  case True
  then show ?thesis
    by (simp add: trim_def)
next
  case False
  assume "x = [] \<or> \<not> isSpace (hd x) \<and> \<not> isSpace (last x)"
  with False have h: "\<not> isSpace (hd x)" and l: "\<not> isSpace (last x)"
    by simp_all
  from h have 1: "dropWhile isSpace x = x"
    by (simp add: dropWhile_eq_self_iff)
  from l False have "dropWhile isSpace (rev x) = rev x"
    by (simp add: dropWhile_eq_self_iff hd_rev)
  with 1 show ?thesis
    by (simp add: trim_def)
qed

lemma trim_surrounded:
  assumes "\<forall>c \<in> set l. isSpace c" "\<forall>c \<in> set r. isSpace c"
    and "x = [] \<or> \<not> isSpace (hd x) \<and> \<not> isSpace (last x)"
  shows "trim (l @ x @ r) = x"
proof (cases "x = []")
  case True
  from assms(1,2) have "\<forall>c \<in> set (l @ r). isSpace c"
    by auto
  then have "dropWhile isSpace (l @ r) = []"
    by (simp only: dropWhile_eq_Nil_conv)
  then have "trim (l @ r) = []"
    by (simp only: trim_def rev.simps dropWhile.simps)
  with True show ?thesis
    by simp
next
  case False
  with assms(3) have h: "\<not> isSpace (hd x)" and la: "\<not> isSpace (last x)"
    by simp_all
  from assms(1) have "dropWhile isSpace (l @ x @ r) = dropWhile isSpace (x @ r)"
    by simp
  also from h False have "\<dots> = x @ r"
    by (cases x) simp_all
  finally have 1: "dropWhile isSpace (l @ x @ r) = x @ r" .
  have "dropWhile isSpace (rev r @ rev x) = dropWhile isSpace (rev x)"
    by (rule dropWhile_append2) (use assms(2) in auto)
  also from la False have "\<dots> = rev x"
    by (simp add: dropWhile_eq_self_iff hd_rev)
  finally show ?thesis
    using 1 by (simp add: trim_def)
qed

lemma cleanMarkdown_fixed:
  assumes "cleanMarkdown x = x"
  shows "replaceAll fenceRx (\<lambda>m caps. []) [] x = x \<and> trim x = x \<and> \<not> sublist ''```'' x"
proof -
  define y where "y = replaceAll fenceRx (\<lambda>m caps. []) [] x"
  have 1: "subseq y x"
    unfolding y_def by (rule replaceAll_fence_subseq)
  from assms have t: "trim y = x"
    by (simp add: cleanMarkdown_def y_def)
  have "subseq (trim y) y"
    using sublist_trim sublist_imp_subseq by blast
  with t have "subseq x y"
    by simp
  with 1 have yx: "y = x"
    by (rule subseq_order.antisym)
  moreover from t yx have "trim x = x"
    by simp
  moreover have "\<not> sublist ''```'' y"
    unfolding y_def using replaceAll_fence by blast
  ultimately show ?thesis
    by (simp add: y_def)
qed

lemma isLineTerminator_isSpace: "isLineTerminator c \<Longrightarrow> isSpace c"
  by (auto simp: isLineTerminator_def isSpace_def)

lemma lineBreaks_none: "s \<noteq> [] \<Longrightarrow> \<not> isLineTerminator (hd s) \<Longrightarrow> lineBreaks s = []"
  by (cases s rule: lineBreaks.cases) (auto simp: isLineTerminator_def)

lemma trim_line_break: "b = [CHR 0x0A] \<or> b = [CHR 0x0D, CHR 0x0A] \<Longrightarrow> trim b = []"
  by (auto simp: trim_def isSpace_def)

lemma parse_first_block:
  assumes a: "cleanMarkdown a = a" "a \<noteq> []" "\<not> test blockSepRx a"
    and bs: "2 \<le> length bs" "set bs \<subseteq> {[CHR 0x0A], [CHR 0x0D, CHR 0x0A]}"
    and rest: "cleanMarkdown rest = rest" "rest \<noteq> []"
  shows "parseMarkdownToHtml (a @ concat bs @ rest) = renderTrimmed a @ parseMarkdownToHtml rest"
proof -
  from cleanMarkdown_fixed [OF a(1)] have fa: "trim a = a" "\<not> sublist ''```'' a"
    by simp_all
  from cleanMarkdown_fixed [OF rest(1)] have fr: "replaceAll fenceRx (\<lambda>m caps. []) [] rest = rest"
    "trim rest = rest"
    by simp_all
  from fa(1) a(2) trim_ends [of a] have ea: "\<not> isSpace (hd a)" "\<not> isSpace (last a)"
    by simp_all
  from fr(2) rest(2) trim_ends [of rest] have er: "\<not> isSpace (hd rest)" "\<not> isSpace (last rest)"
    by simp_all
  from bs have ne: "bs \<noteq> []"
    by auto
  from bs(2) have nb: "\<forall>b \<in> set bs. b \<noteq> []"
    by auto
  with ne have cne: "concat bs \<noteq> []"
    by (cases bs) auto
  from bs(2) have sub: "set (concat bs) \<subseteq> {CHR 0x0A, CHR 0x0D}"
    by auto
  from ne bs(2) have lastb: "last bs = [CHR 0x0A] \<or> last bs = [CHR 0x0D, CHR 0x0A]"
    using last_in_set by blast
  have "last (concat bs) = last (last bs)"
    using ne nb by (induction bs) auto
  with lastb have lc: "last (concat bs) \<noteq> CHR 0x60"
    by auto
  from cne sub have hc: "hd (concat bs @ rest) \<noteq> CHR 0x60"
    by (cases "concat bs") auto
  have nf: "\<not> sublist ''```'' (concat bs)"
  proof
    assume "sublist ''```'' (concat bs)"
    then have "set ''```'' \<subseteq> set (concat bs)"
      by (rule set_mono_sublist)
    with sub show False
      by auto
  qed
  have "replaceAll fenceRx (\<lambda>m caps. []) [] (a @ concat bs @ rest) =
      a @ replaceAll fenceRx (\<lambda>m caps. []) [] (concat bs @ rest)"
    using replaceAll_fence_app' [OF fa(2), of "concat bs @ rest"] hc by simp
  also have "\<dots> = a @ concat bs @ replaceAll fenceRx (\<lambda>m caps. []) [] rest"
    using replaceAll_fence_app' [OF nf, of rest] lc by simp
  finally have strip: "replaceAll fenceRx (\<lambda>m caps. []) [] (a @ concat bs @ rest) = a @ concat bs @ rest"
    using fr(1) by simp
  have "trim (a @ concat bs @ rest) = a @ concat bs @ rest"
  proof (rule trim_id)
    from a(2) rest(2) ea(1) er(2)
    show "a @ concat bs @ rest = [] \<or>
        \<not> isSpace (hd (a @ concat bs @ rest)) \<and> \<not> isSpace (last (a @ concat bs @ rest))"
      by simp
  qed
  with strip have clean: "cleanMarkdown (a @ concat bs @ rest) = a @ concat bs @ rest"
    by (simp add: cleanMarkdown_def)
  from ea(2) have la: "a = [] \<or> \<not> isLineTerminator (last a)"
    using isLineTerminator_isSpace by blast
  from er(1) rest(2) have lr: "lineBreaks rest = []"
    using isLineTerminator_isSpace lineBreaks_none by blast
  have "blocks (a @ concat bs @ rest) = a # last bs # blocks rest"
    using split_at_run [OF a(3) la bs lr] clean rest(1) by (simp add: blocks_def)
  moreover have "renderBlock a = renderTrimmed a"
    using fa(1) a(2) by (simp add: renderBlock_def)
  moreover have "renderBlock (last bs) = []"
    using trim_line_break [OF lastb] by (simp add: renderBlock_def)
  ultimately show ?thesis
    by (simp add: parseMarkdownToHtml_def join_Nil_concat)
qed

lemma parse_single_block:
  assumes "cleanMarkdown a = a" "a \<noteq> []" "\<not> test blockSepRx a"
  shows "parseMarkdownToHtml a = renderTrimmed a"
proof -
  from cleanMarkdown_fixed [OF assms(1)] have "trim a = a"
    by simp
  with assms show ?thesis
    by (simp add: parseMarkdownToHtml_def join_Nil_concat blocks_def split_one_block renderBlock_def)
qed

text \<open>
  C3, as the program has it. The fence markers are removed wherever they stand in the
  text, not only around it: no marker is left in the cleaned text, which is read off the
  input from left to right; a text without a marker is only trimmed, and removing the
  leftmost marker of a text (with \<open>markdown\<close> and the line break after it, when they
  follow) does not change the result. Trimming removes the whitespace around a text that
  neither begins nor ends with whitespace, so the cleaned text neither begins nor ends
  with whitespace. The cleaned text is split at the runs of two or more line breaks: a
  text without such a run is one block; and when a piece that has no such run and does
  not end with a line terminator is followed by a run of two or more line breaks (each
  LF or CR LF) that cannot be extended, the list is the piece, then the last line break
  of the run (captured by the pattern's group), then the list of the rest. The list is
  read off the cleaned text from left to right, and the output is the concatenation, in
  that order, of the renderings of the blocks that are not empty after trimming.
\<close>

theorem segmentation_properties:
  "\<not> sublist ''```'' (cleanMarkdown md) \<and>
   subseq (cleanMarkdown md) md \<and>
   (\<not> sublist ''```'' md \<longrightarrow> cleanMarkdown md = trim md) \<and>
   (\<not> sublist ''```'' a \<and> (a = [] \<or> last a \<noteq> CHR 0x60) \<longrightarrow>
      cleanMarkdown (a @ ''```'' @ b) =
        cleanMarkdown (a @ (if startsWith b ''markdown\<newline>''
                            then drop (length ''markdown\<newline>'') b else b))) \<and>
   ((\<forall>c \<in> set l. isSpace c) \<and> (\<forall>c \<in> set r. isSpace c) \<and>
    (x = [] \<or> \<not> isSpace (hd x) \<and> \<not> isSpace (last x)) \<longrightarrow> trim (l @ x @ r) = x) \<and>
   (cleanMarkdown md \<noteq> [] \<longrightarrow>
      \<not> isSpace (hd (cleanMarkdown md)) \<and> \<not> isSpace (last (cleanMarkdown md))) \<and>
   blocks md = split blockSepRx (cleanMarkdown md) \<and>
   (\<not> test blockSepRx t \<longrightarrow> split blockSepRx t = [t]) \<and>
   (\<not> test blockSepRx t \<and> (t = [] \<or> \<not> isLineTerminator (last t)) \<and>
    2 \<le> length bs \<and> set bs \<subseteq> {[CHR 0x0A], [CHR 0x0D, CHR 0x0A]} \<and> lineBreaks rest = [] \<longrightarrow>
      split blockSepRx (t @ concat bs @ rest) = t # last bs # split blockSepRx rest) \<and>
   subseq (concat (blocks md)) (cleanMarkdown md) \<and>
   parseMarkdownToHtml md =
     concat (map renderTrimmed (filter (\<lambda>b. b \<noteq> []) (map trim (blocks md))))"
proof -
  have 1: "\<not> sublist ''```'' (cleanMarkdown md)"
    unfolding cleanMarkdown_def
    using replaceAll_fence [of "[]" md] sublist_trim sublist_order.order_trans by blast
  have 2: "subseq (cleanMarkdown md) md"
    unfolding cleanMarkdown_def
    using replaceAll_fence_subseq [of "[]" md] sublist_trim sublist_imp_subseq
      subseq_order.order_trans
    by blast
  have 3: "\<not> sublist ''```'' md \<longrightarrow> cleanMarkdown md = trim md"
    by (simp add: cleanMarkdown_def replaceAll_fence_id)
  have 4: "\<not> sublist ''```'' a \<and> (a = [] \<or> last a \<noteq> CHR 0x60) \<longrightarrow>
      cleanMarkdown (a @ ''```'' @ b) =
        cleanMarkdown (a @ (if startsWith b ''markdown\<newline>''
                            then drop (length ''markdown\<newline>'') b else b))"
    using cleanMarkdown_leftmost_marker by blast
  have 5: "(\<forall>c \<in> set l. isSpace c) \<and> (\<forall>c \<in> set r. isSpace c) \<and>
    (x = [] \<or> \<not> isSpace (hd x) \<and> \<not> isSpace (last x)) \<longrightarrow> trim (l @ x @ r) = x"
    using trim_surrounded by blast
  have 6: "cleanMarkdown md \<noteq> [] \<longrightarrow>
      \<not> isSpace (hd (cleanMarkdown md)) \<and> \<not> isSpace (last (cleanMarkdown md))"
    unfolding cleanMarkdown_def using trim_ends by blast
  have 7: "\<not> test blockSepRx t \<longrightarrow> split blockSepRx t = [t]"
    using split_one_block by blast
  have 8: "\<not> test blockSepRx t \<and> (t = [] \<or> \<not> isLineTerminator (last t)) \<and>
    2 \<le> length bs \<and> set bs \<subseteq> {[CHR 0x0A], [CHR 0x0D, CHR 0x0A]} \<and> lineBreaks rest = [] \<longrightarrow>
      split blockSepRx (t @ concat bs @ rest) = t # last bs # split blockSepRx rest"
    using split_at_run by blast
  have 9: "parseMarkdownToHtml md =
     concat (map renderTrimmed (filter (\<lambda>b. b \<noteq> []) (map trim (blocks md))))"
    by (simp add: parseMarkdownToHtml_def join_Nil_concat concat_renderBlock)
  have 10: "blocks md = split blockSepRx (cleanMarkdown md)"
    by (simp add: blocks_def)
  from 1 2 3 4 5 6 10 7 8 blocks_subseq 9 show ?thesis
    by (intro conjI)
qed

theorem segmentation_properties_witness:
  "\<not> sublist ''```'' ''  a`b  '' \<and> cleanMarkdown ''  a`b  '' = ''a`b'' \<and>
   \<not> sublist ''```'' ''x'' \<and> last ''x'' \<noteq> CHR 0x60 \<and> startsWith ''markdown\<newline>y'' ''markdown\<newline>'' \<and>
   cleanMarkdown ''x```markdown\<newline>y'' = cleanMarkdown ''xy'' \<and>
   trim ''  a b\<newline>'' = ''a b'' \<and>
   cleanMarkdown fencedReport \<noteq> [] \<and>
   \<not> isSpace (hd (cleanMarkdown fencedReport)) \<and>
   \<not> isSpace (last (cleanMarkdown fencedReport)) \<and>
   \<not> test blockSepRx ''a\<newline>b'' \<and> split blockSepRx ''a\<newline>b'' = [''a\<newline>b''] \<and>
   \<not> isLineTerminator (last ''a\<newline>b'') \<and> lineBreaks ''c'' = [] \<and>
   split blockSepRx (''a\<newline>b'' @ concat [''\<newline>'', [CHR 0x0D, CHR 0x0A]] @ ''c'') =
     [''a\<newline>b'', [CHR 0x0D, CHR 0x0A], ''c''] \<and>
   blocks fencedReport = [''# T'', ''\<newline>'', ''a\<newline>b'', ''\<newline>'', ''c'']"
proof -
  have 1: "\<not> sublist ''```'' ''  a`b  ''"
    by code_simp
  have 2: "trim ''  a`b  '' = ''a`b''"
    by code_simp
  have 3: "\<not> sublist ''```'' ''x'' \<and> (''x'' = [] \<or> last ''x'' \<noteq> CHR 0x60)"
    by code_simp
  have 4: "startsWith ''markdown\<newline>y'' ''markdown\<newline>''"
    by code_simp
  have 5: "(\<forall>c \<in> set ''  ''. isSpace c) \<and> (\<forall>c \<in> set ''\<newline>''. isSpace c) \<and>
      (''a b'' = [] \<or> \<not> isSpace (hd ''a b'') \<and> \<not> isSpace (last ''a b''))"
    by (simp add: isSpace_def)
  have 6: "cleanMarkdown fencedReport = ''# T\<newline>\<newline>a\<newline>b\<newline>\<newline>\<newline>c''"
    by code_simp
  have 7: "split blockSepRx ''# T\<newline>\<newline>a\<newline>b\<newline>\<newline>\<newline>c'' =
      [''# T'', ''\<newline>'', ''a\<newline>b'', ''\<newline>'', ''c'']"
    by code_simp
  have 8: "\<not> test blockSepRx ''a\<newline>b''"
    by code_simp
  have 9: "\<not> isLineTerminator (last ''a\<newline>b'') \<and> lineBreaks ''c'' = []"
    by code_simp
  have 10: "2 \<le> length [''\<newline>'', [CHR 0x0D, CHR 0x0A]] \<and>
      set [''\<newline>'', [CHR 0x0D, CHR 0x0A]] \<subseteq> {[CHR 0x0A], [CHR 0x0D, CHR 0x0A]}"
    by simp
  have 11: "split blockSepRx ''c'' = [''c'']"
    by code_simp
  from 6 have 12: "cleanMarkdown fencedReport \<noteq> []"
    by simp
  from segmentation_properties [where md = "''  a`b  ''" and a = "''x''" and b = "''markdown\<newline>y''"
      and l = "''  ''" and x = "''a b''" and r = "''\<newline>''" and t = "''a\<newline>b''"
      and bs = "[''\<newline>'', [CHR 0x0D, CHR 0x0A]]" and rest = "''c''"]
    segmentation_properties [where md = fencedReport]
    1 2 3 4 5 6 7 8 9 10 11 12
  show ?thesis
    by simp
qed

text \<open>
  The claim as written fails: the marker inside \<open>x```y\<close>, a text that is not wrapped in a
  fence, is removed; and the list of blocks of \<open>a\<close>, two line breaks, \<open>b\<close> holds the
  captured line break, a block that is empty after trimming.
\<close>

theorem fence_inside_text_counterexample:
  "\<not> startsWith ''x```y'' ''```'' \<and> cleanMarkdown ''x```y'' = ''xy'' \<and>
   blocks ''x```y'' = [''xy''] \<and>
   blocks ''a\<newline>\<newline>b'' = [''a'', ''\<newline>'', ''b''] \<and> trim ''\<newline>'' = []"
  by code_simp

section \<open>Rendering of a block\<close>

text \<open>
  C1, as the program has it. A block whose trimmed text begins with \<open>|\<close> and none of
  whose rows contains a match of the separator pattern is rendered as a paragraph. (The
  pattern is searched anywhere in a row: \<open>|\<close>, then one or more groups of optional
  whitespace, an optional colon, dashes, an optional colon, optional whitespace and \<open>|\<close>.)
\<close>

theorem pipe_block_without_separator_is_paragraph:
  assumes "startsWith (trim block) ''|''"
    and "\<forall>row \<in> set (tableRows (trim block)). \<not> isSeparatorRow row"
  shows "renderBlock block = renderParagraph (trim block)"
proof -
  from assms(1) obtain r where tb: "trim block = CHR ''|'' # r"
    by (auto simp: startsWith_Cons)
  have "separatorIndex (tableRows (trim block)) = - 1"
    using assms(2) by (simp add: separatorIndex_def findIndex_none)
  then have table: "renderTable (trim block) = None"
    by (simp add: renderTable_def)
  have ul: "\<not> test ulRx (trim block)"
    by (simp add: tb test_ulRx ulRx_def split: list.splits)
  have ol: "\<not> test olRx (trim block)"
    by (simp add: tb test_olRx olRx_def isDigit_def split: list.splits)
  have "renderTrimmed (trim block) = renderParagraph (trim block)"
    using table ul ol unfolding renderTrimmed_def by (simp add: tb startsWith_def)
  then show ?thesis
    by (simp add: renderBlock_def tb)
qed

theorem pipe_block_without_separator_is_paragraph_witness:
  \<open>startsWith (trim ''| a | b |'') ''|'' \<and>
   filter isSeparatorRow (tableRows (trim ''| a | b |'')) = [] \<and>
   renderBlock ''| a | b |'' = ''<p>| a | b |</p>''\<close>
proof -
  have 1: "startsWith (trim ''| a | b |'') ''|''"
    by code_simp
  have 2: "filter isSeparatorRow (tableRows (trim ''| a | b |'')) = []"
    by code_simp
  have 3: "renderParagraph (trim ''| a | b |'') = ''<p>| a | b |</p>''"
    by code_simp
  from 2 have 4: "\<forall>row \<in> set (tableRows (trim ''| a | b |'')). \<not> isSeparatorRow row"
    by (simp add: filter_empty_conv)
  from pipe_block_without_separator_is_paragraph [OF 1 4] 1 2 3 show ?thesis
    by simp
qed

text \<open>
  The claim as written fails: in the block of the two lines \<open>| a |\<close> and
  \<open>| b |---| c |\<close> no line has cells that all consist of dashes and colons, and the block
  is rendered as a table with the header cell \<open>a\<close> and no body row: the pattern finds
  \<open>|---|\<close> inside the second line.
\<close>

theorem pipe_block_without_dash_row_counterexample:
  "startsWith (trim pipeBlock) ''|'' \<and>
   filter specSeparatorRow (split lineSepRx (trim pipeBlock)) = [] \<and>
   renderBlock pipeBlock = tableHtml (th ''a'') [] \<and>
   renderBlock pipeBlock \<noteq> renderParagraph (trim pipeBlock)"
  by code_simp

text \<open>
  C2. The block of the three lines \<open>| A | B |\<close>, \<open>|---|---|\<close>, \<open>| x | y |\<close> has the
  header cells \<open>A\<close>, \<open>B\<close> and the single body row with the cells \<open>x\<close>, \<open>y\<close>, and is
  rendered as the table with that header row and that body row.
\<close>

theorem table_example:
  \<open>rowCells (hd (tableRows tableBlock)) = [''A'', ''B''] \<and>
   map rowCells (drop (nat (separatorIndex (tableRows tableBlock) + 1)) (tableRows tableBlock)) =
     [''x'', ''y''] # [] \<and>
   parseMarkdownToHtml tableBlock =
     ''\<newline>'' @
     ''                    <div class="overflow-x-auto my-4 rounded-lg border border-neutral-800">\<newline>'' @
     ''                        <table class="w-full text-sm">\<newline>'' @
     ''                            <thead class="bg-neutral-800/50">\<newline>'' @
     ''                                <tr>'' @
     ''<th class="p-3 border-b border-neutral-700 text-left font-semibold bg-neutral-800/50">A</th>'' @
     ''<th class="p-3 border-b border-neutral-700 text-left font-semibold bg-neutral-800/50">B</th>'' @
     ''</tr>\<newline>'' @
     ''                            </thead>\<newline>'' @
     ''                            <tbody>'' @
     ''<tr>'' @
     ''<td class="p-3 border-b border-neutral-800 align-top">x</td>'' @
     ''<td class="p-3 border-b border-neutral-800 align-top">y</td>'' @
     ''</tr>'' @
     ''</tbody>\<newline>'' @
     ''                        </table>\<newline>'' @
     ''                    </div>\<newline>'' @
     ''                ''\<close>
  by code_simp

lemma stripQuoteMark_marked:
  "stripQuoteMark (CHR ''>'' # rest) =
     (case rest of [] \<Rightarrow> [] | d # r \<Rightarrow> if isSpace d then r else d # r)"
  by (simp add: stripQuoteMark_def quoteMarkRx_def startsWith_def split: list.splits)

lemma stripQuoteMark_unmarked:
  "\<not> startsWith line ''>'' \<Longrightarrow> stripQuoteMark line = line"
proof (cases line)
  case Nil
  then show ?thesis
    by (simp add: stripQuoteMark_def quoteMarkRx_def startsWith_def)
next
  case (Cons c r)
  assume "\<not> startsWith line ''>''"
  with Cons have "quoteMarkRx [] (c # r) = None"
    by (simp add: quoteMarkRx_def)
  with Cons show ?thesis
    using replaceFirst_anchored [of quoteMarkRx "[c]" "\<lambda>m caps. []" r]
    by (simp add: stripQuoteMark_def quoteMarkRx_anchored)
qed

lemma renderTable_quote: "startsWith tb ''> '' \<Longrightarrow> renderTable tb = None"
  by (auto simp: renderTable_def startsWith_Cons)

text \<open>
  C5, as the program has it. A block whose trimmed text begins with \<open>>\<close> and a space is
  rendered as a quoted block: its lines, each without its marker, joined with one space
  and transformed inline. The marker of a line that begins with \<open>>\<close> is that character
  and one whitespace character after it, if there is one; a line that does not begin
  with \<open>>\<close> is kept as it is.
\<close>

theorem quote_block_rendering:
  \<open>(startsWith (trim block) ''> '' \<longrightarrow>
      renderBlock block =
        ''<blockquote class="border-l-4 border-neutral-600 pl-4 my-4 italic text-neutral-400">'' @
        processInlines (join '' '' (map stripQuoteMark (split lineSepRx (trim block)))) @
        ''</blockquote>'') \<and>
   stripQuoteMark (CHR ''>'' # rest) =
     (case rest of [] \<Rightarrow> [] | d # r \<Rightarrow> if isSpace d then r else d # r) \<and>
   (\<not> startsWith line ''>'' \<longrightarrow> stripQuoteMark line = line)\<close>
proof -
  have "renderBlock block = blockquote (trim block)" if q: "startsWith (trim block) ''> ''"
  proof -
    from q obtain r where tb: "trim block = CHR ''>'' # CHR '' '' # r"
      by (auto simp: startsWith_Cons)
    have "renderTrimmed (trim block) = blockquote (trim block)"
      unfolding renderTrimmed_def using renderTable_quote [OF q]
      by (simp add: tb startsWith_def)
    then show ?thesis
      by (simp add: renderBlock_def tb)
  qed
  then show ?thesis
    using stripQuoteMark_marked stripQuoteMark_unmarked
    by (simp add: blockquote_def)
qed

theorem quote_block_rendering_witness:
  \<open>startsWith (trim ''> a\<newline>>b'') ''> '' \<and>
   renderBlock ''> a\<newline>>b'' =
     ''<blockquote class="border-l-4 border-neutral-600 pl-4 my-4 italic text-neutral-400">a b</blockquote>'' \<and>
   \<not> startsWith ''b'' ''>'' \<and> stripQuoteMark ''b'' = ''b''\<close>
proof -
  have 1: "startsWith (trim ''> a\<newline>>b'') ''> ''"
    by code_simp
  have 2: "processInlines (join '' '' (map stripQuoteMark (split lineSepRx (trim ''> a\<newline>>b'')))) = ''a b''"
    by code_simp
  have 3: "\<not> startsWith ''b'' ''>''"
    by code_simp
  from quote_block_rendering [of "''> a\<newline>>b''" "'' a''" "''b''"] 1 2 3 show ?thesis
    by simp
qed

text \<open>
  The claim as written fails: the block \<open>>a\<close> has one line, which begins with \<open>>\<close>, is
  neither a table nor a heading, and is rendered as a paragraph.
\<close>

theorem quote_without_space_counterexample:
  \<open>split lineSepRx (trim ''>a'') = [''>a''] \<and> startsWith ''>a'' ''>'' \<and>
   renderTable (trim ''>a'') = None \<and> \<not> startsWith (trim ''>a'') ''#'' \<and>
   renderBlock ''>a'' = ''<p>>a</p>''\<close>
  by code_simp

text \<open>
  C8. For every input the output is the concatenation, in the order of the list of
  blocks, of the rendering of each block. The rendering of a block does not depend on
  what follows it: when a text without fence markers and outer whitespace that is one
  block is followed by a run of two or more line breaks and by a text without fence
  markers and outer whitespace, the output is the rendering of the first block followed
  by the output for the rest; such a block alone is rendered as itself. A text of a
  heading, a paragraph of two lines and a list of two items gives the three elements in
  that order.
\<close>

theorem rendering_is_blockwise:
  \<open>parseMarkdownToHtml markdown = concat (map renderBlock (blocks markdown)) \<and>
   (cleanMarkdown a = a \<and> a \<noteq> [] \<and> \<not> test blockSepRx a \<longrightarrow>
      parseMarkdownToHtml a = renderTrimmed a) \<and>
   (cleanMarkdown a = a \<and> a \<noteq> [] \<and> \<not> test blockSepRx a \<and>
    2 \<le> length bs \<and> set bs \<subseteq> {[CHR 0x0A], [CHR 0x0D, CHR 0x0A]} \<and>
    cleanMarkdown rest = rest \<and> rest \<noteq> [] \<longrightarrow>
      parseMarkdownToHtml (a @ concat bs @ rest) = renderTrimmed a @ parseMarkdownToHtml rest) \<and>
   parseMarkdownToHtml sampleDoc =
     ''<h1 class="text-2xl font-bold my-4">T</h1>'' @
     ''<p>hello<br />world</p>'' @
     ''<ul class="list-disc list-inside space-y-1 my-2">'' @
     ''<li class="pb-1">a</li><li class="pb-1">b</li></ul>''\<close>
proof -
  have 1: "parseMarkdownToHtml markdown = concat (map renderBlock (blocks markdown))"
    by (simp add: parseMarkdownToHtml_def join_Nil_concat)
  have 2: "cleanMarkdown a = a \<and> a \<noteq> [] \<and> \<not> test blockSepRx a \<longrightarrow>
      parseMarkdownToHtml a = renderTrimmed a"
    using parse_single_block by blast
  have 3: "cleanMarkdown a = a \<and> a \<noteq> [] \<and> \<not> test blockSepRx a \<and>
    2 \<le> length bs \<and> set bs \<subseteq> {[CHR 0x0A], [CHR 0x0D, CHR 0x0A]} \<and>
    cleanMarkdown rest = rest \<and> rest \<noteq> [] \<longrightarrow>
      parseMarkdownToHtml (a @ concat bs @ rest) = renderTrimmed a @ parseMarkdownToHtml rest"
    using parse_first_block by blast
  have 4: \<open>parseMarkdownToHtml sampleDoc =
     ''<h1 class="text-2xl font-bold my-4">T</h1>'' @
     ''<p>hello<br />world</p>'' @
     ''<ul class="list-disc list-inside space-y-1 my-2">'' @
     ''<li class="pb-1">a</li><li class="pb-1">b</li></ul>''\<close>
    by code_simp
  from 1 2 3 4 show ?thesis
    by (intro conjI)
qed

theorem rendering_is_blockwise_witness:
  \<open>cleanMarkdown ''# T'' = ''# T'' \<and> \<not> test blockSepRx ''# T'' \<and>
   cleanMarkdown ''hello'' = ''hello'' \<and>
   parseMarkdownToHtml ''hello'' = ''<p>hello</p>'' \<and>
   renderTrimmed ''# T'' = ''<h1 class="text-2xl font-bold my-4">T</h1>'' \<and>
   parseMarkdownToHtml (''# T'' @ concat [''\<newline>'', ''\<newline>''] @ ''hello'') =
     ''<h1 class="text-2xl font-bold my-4">T</h1><p>hello</p>''\<close>
proof -
  have 1: "cleanMarkdown ''# T'' = ''# T'' \<and> ''# T'' \<noteq> [] \<and> \<not> test blockSepRx ''# T''"
    by code_simp
  have 2: "cleanMarkdown ''hello'' = ''hello'' \<and> ''hello'' \<noteq> []"
    by code_simp
  have 3: "2 \<le> length [''\<newline>'', ''\<newline>''] \<and>
      set [''\<newline>'', ''\<newline>''] \<subseteq> {[CHR 0x0A], [CHR 0x0D, CHR 0x0A]}"
    by simp
  have 4: \<open>renderTrimmed ''# T'' = ''<h1 class="text-2xl font-bold my-4">T</h1>''\<close>
    by code_simp
  have 5: "renderTrimmed ''hello'' = ''<p>hello</p>''"
    by code_simp
  note single = rendering_is_blockwise [where markdown = "[]" and a = "''hello''" and bs = "[]"
      and rest = "[]"]
  note first = rendering_is_blockwise [where markdown = "[]" and a = "''# T''"
      and bs = "[''\<newline>'', ''\<newline>'']" and rest = "''hello''"]
  from single 2 have 6: "parseMarkdownToHtml ''hello'' = renderTrimmed ''hello''"
    by (simp add: test_def blockSepRx_def)
  from first 1 2 3
  have 7: "parseMarkdownToHtml (''# T'' @ concat [''\<newline>'', ''\<newline>''] @ ''hello'') =
      renderTrimmed ''# T'' @ parseMarkdownToHtml ''hello''"
    by blast
  from 1 2 4 5 6 7 show ?thesis
    by simp
qed

section \<open>Sources of a report\<close>

lemma set_newSet: "set (newSet seen xs) = set seen \<union> set xs"
  by (induction xs arbitrary: seen) auto

lemma distinct_newSet: "distinct seen \<Longrightarrow> distinct (newSet seen xs)"
  by (induction xs arbitrary: seen) auto

lemma sources_nonempty_uri:
  assumes "x \<in> set (sources chunks)"
  shows "\<exists>c \<in> set chunks. \<exists>w u. web c = Some w \<and> uri w = Some u \<and> u \<noteq> [] \<and> x = sourceLink (Some w)"
proof -
  from assms obtain c where c: "c \<in> set chunks" "keptWeb (web c)" "x = sourceLink (web c)"
    by (auto simp: sources_def)
  from c(2) obtain w u where "web c = Some w" "uri w = Some u" "u \<noteq> []"
    by (auto simp: keptWeb_def split: option.splits)
  with c show ?thesis
    by auto
qed

text \<open>
  C6. The entries of the Sources section are pairwise distinct; they are exactly the
  \<open>[title](uri)\<close> strings of the citations that pass the filter; each of them comes from
  a citation that has a URI, and that URI is not empty; every citation whose URI is not
  blank has its entry. When the response has citations that pass the filter,
  \<open>analyzeTextContent\<close> returns the report text followed by the heading and these
  entries, one per line. For the citations A/u1, A/u1, B/(empty URI) the only entry is
  \<open>[A](u1)\<close>.
\<close>

theorem sources_deduplicated:
  "distinct (uniqueSources chunks) \<and>
   set (uniqueSources chunks) = set (sources chunks) \<and>
   (\<forall>x \<in> set (uniqueSources chunks).
      \<exists>c \<in> set chunks. \<exists>w u. web c = Some w \<and> uri w = Some u \<and> u \<noteq> [] \<and> x = sourceLink (Some w)) \<and>
   (\<forall>c \<in> set chunks. \<forall>w u. web c = Some w \<and> uri w = Some u \<and> trim u \<noteq> [] \<longrightarrow>
      sourceLink (Some w) \<in> set (uniqueSources chunks)) \<and>
   (generateContent e (TextRequest x) = Inr r \<and> groundingChunks r = Some chunks \<and>
    sources chunks \<noteq> [] \<longrightarrow>
      analyzeTextContent e x =
        Inr (responseText r @ ''\<newline>\<newline>## Sources\<newline>'' @ join ''\<newline>'' (uniqueSources chunks))) \<and>
   uniqueSources citations = [''[A](u1)'']"
proof -
  have 1: "distinct (uniqueSources chunks)"
    by (simp add: uniqueSources_def distinct_newSet)
  have 2: "set (uniqueSources chunks) = set (sources chunks)"
    by (simp add: uniqueSources_def set_newSet)
  have 3: "\<forall>x \<in> set (uniqueSources chunks).
      \<exists>c \<in> set chunks. \<exists>w u. web c = Some w \<and> uri w = Some u \<and> u \<noteq> [] \<and> x = sourceLink (Some w)"
    using sources_nonempty_uri 2 by blast
  have 4: "\<forall>c \<in> set chunks. \<forall>w u. web c = Some w \<and> uri w = Some u \<and> trim u \<noteq> [] \<longrightarrow>
      sourceLink (Some w) \<in> set (uniqueSources chunks)"
  proof (intro ballI allI impI)
    fix c w u
    assume c: "c \<in> set chunks" and w: "web c = Some w \<and> uri w = Some u \<and> trim u \<noteq> []"
    then have "u \<noteq> []" by (auto simp: trim_def)
    with w have "keptWeb (web c)" by (simp add: keptWeb_def)
    with c w have "sourceLink (Some w) \<in> set (sources chunks)"
      by (force simp: sources_def)
    with 2 show "sourceLink (Some w) \<in> set (uniqueSources chunks)" by simp
  qed
  have 5: "generateContent e (TextRequest x) = Inr r \<and> groundingChunks r = Some chunks \<and>
    sources chunks \<noteq> [] \<longrightarrow>
      analyzeTextContent e x =
        Inr (responseText r @ ''\<newline>\<newline>## Sources\<newline>'' @ join ''\<newline>'' (uniqueSources chunks))"
  proof (intro impI, elim conjE)
    assume g: "generateContent e (TextRequest x) = Inr r" "groundingChunks r = Some chunks"
      and s: "sources chunks \<noteq> []"
    from s have "chunks \<noteq> []"
      by (auto simp: sources_def)
    with g s show "analyzeTextContent e x =
        Inr (responseText r @ ''\<newline>\<newline>## Sources\<newline>'' @ join ''\<newline>'' (uniqueSources chunks))"
      by (simp add: analyzeTextContent_def reportText_def)
  qed
  have 6: "uniqueSources citations = [''[A](u1)'']"
    by (simp add: uniqueSources_def sources_def citations_def keptWeb_def
        sourceLink_def trim_def isSpace_def)
  from 1 2 3 4 5 6 show ?thesis by blast
qed

theorem sources_deduplicated_witness:
  "generateContent grounded (TextRequest ''notes'') =
     Inr \<lparr>responseText = ''# Report'', groundingChunks = Some citations\<rparr> \<and>
   sources citations \<noteq> [] \<and>
   uniqueSources citations = [''[A](u1)''] \<and>
   analyzeTextContent grounded ''notes'' = Inr ''# Report\<newline>\<newline>## Sources\<newline>[A](u1)'' \<and>
   (\<exists>c \<in> set citations. \<exists>w u. web c = Some w \<and> uri w = Some u \<and> u \<noteq> [] \<and>
      ''[A](u1)'' = sourceLink (Some w)) \<and>
   trim ''u1'' \<noteq> [] \<and> ''[A](u1)'' \<in> set (uniqueSources citations)"
proof -
  have g: "generateContent grounded (TextRequest ''notes'') =
     Inr \<lparr>responseText = ''# Report'', groundingChunks = Some citations\<rparr>"
    by (simp add: grounded_def)
  have s: "sources citations \<noteq> []"
    by (simp add: sources_def citations_def keptWeb_def trim_def isSpace_def)
  have t: "trim ''u1'' \<noteq> []"
    by (simp add: trim_def isSpace_def)
  from sources_deduplicated [of citations grounded "''notes''"
      "\<lparr>responseText = ''# Report'', groundingChunks = Some citations\<rparr>"] g s t
  show ?thesis
    by simp
qed

section \<open>Handlers\<close>

lemma reportValid_st0: "reportValid st0"
  by (simp add: reportValid_def st0_def)

lemma reportRequest_offline_st0:
  "reportRequest offline st0 = Inl ''Failed to generate content from video.''"
  by (simp add: reportRequest_def analyzeVideo_def st0_def offline_def)

lemma run_append:
  "run (xs @ ys) c = (case run xs c of None \<Rightarrow> None | Some c' \<Rightarrow> run ys c')"
  by (induction xs arbitrary: c) (simp_all split: option.splits)


lemma step_article:
  assumes "step ev c = Some c'"
  shows "article (ui c') = article (ui c) \<or> article (ui c') = [] \<or>
         (\<exists>i e cap r. ev = Settle i e \<and> i < length (inflight c) \<and> inflight c ! i = PendingArticle cap \<and>
            articleRequest e cap = Inr r \<and> article (ui c') = r)"
proof (cases ev)
  case (Settle i e)
  with assms have i: "i < length (inflight c)"
    and c': "c' = c\<lparr>ui := settle e (inflight c ! i) (ui c),
                    inflight := take i (inflight c) @ drop (Suc i) (inflight c)\<rparr>"
    by (auto split: if_splits)
  show ?thesis
  proof (cases "inflight c ! i")
    case (PendingReport cap)
    with c' show ?thesis
      by (cases "reportRequest e cap") (auto simp: settle_def reportFinish_def)
  next
    case (PendingArticle cap)
    with Settle i c' show ?thesis
      by (cases "articleRequest e cap") (auto simp: settle_def articleFinish_def)
  qed
qed (use assms in \<open>auto simp: handleInputChange_def handleFileChange_def handleGenerateReport_def
      handleSubmitArticle_def reportStart_def articleStart_def split: if_splits option.splits\<close>)


lemma run_article:
  "article (ui c) = [] \<Longrightarrow> run evs c = Some c' \<Longrightarrow>
     article (ui c') = [] \<or>
     (\<exists>evs1 i e evs2 c2 cap r. evs = evs1 @ Settle i e # evs2 \<and> run evs1 c = Some c2 \<and>
        i < length (inflight c2) \<and> inflight c2 ! i = PendingArticle cap \<and>
        articleRequest e cap = Inr r \<and> article (ui c') = r)"
proof (induction evs arbitrary: c' rule: rev_induct)
  case Nil
  then show ?case
    by simp
next
  case (snoc ev xs)
  from snoc.prems(2) obtain c2 where xs: "run xs c = Some c2" and ev: "step ev c2 = Some c'"
    by (auto simp: run_append split: option.splits)
  from step_article [OF ev] consider
      (same) "article (ui c') = article (ui c2)"
    | (empty) "article (ui c') = []"
    | (written) i e cap r where "ev = Settle i e" "i < length (inflight c2)"
        "inflight c2 ! i = PendingArticle cap" "articleRequest e cap = Inr r" "article (ui c') = r"
    by blast
  then show ?case
  proof cases
    case same
    from snoc.IH [OF snoc.prems(1) xs] show ?thesis
    proof
      assume "article (ui c2) = []"
      with same show ?thesis
        by simp
    next
      assume "\<exists>evs1 i e evs2 c3 cap r. xs = evs1 @ Settle i e # evs2 \<and> run evs1 c = Some c3 \<and>
        i < length (inflight c3) \<and> inflight c3 ! i = PendingArticle cap \<and>
        articleRequest e cap = Inr r \<and> article (ui c2) = r"
      then obtain evs1 i e evs2 c3 cap r where d: "xs = evs1 @ Settle i e # evs2"
        "run evs1 c = Some c3" "i < length (inflight c3)" "inflight c3 ! i = PendingArticle cap"
        "articleRequest e cap = Inr r" "article (ui c2) = r"
        by blast
      from d(1) have "xs @ [ev] = evs1 @ Settle i e # (evs2 @ [ev])"
        by simp
      with d same show ?thesis
        by metis
    qed
  next
    case empty
    then show ?thesis
      by simp
  next
    case written
    with xs have "xs @ [ev] = xs @ Settle i e # [] \<and> run xs c = Some c2 \<and>
        i < length (inflight c2) \<and> inflight c2 ! i = PendingArticle cap \<and>
        articleRequest e cap = Inr r \<and> article (ui c') = r"
      by simp
    then show ?thesis
      by blast
  qed
qed




text \<open>
  C9. When \<open>handleGenerateReport\<close> passes its validation, the summary and the article are
  empty in the state in which the request is issued. The continuation of the report
  request never writes the article, whatever the outcome. In every run from that state,
  so also when the report request fails, the article is empty unless an article request
  has settled with success during the run: an article shown before the regeneration is
  never shown after it.
\<close>

theorem report_generation_clears_both_slots:
  "(reportValid (ui c) \<longrightarrow>
      summary (ui (handleGenerateReport c)) = [] \<and>
      article (ui (handleGenerateReport c)) = [] \<and>
      inflight (handleGenerateReport c) = inflight c @ [PendingReport (ui c)]) \<and>
   summary (reportStart st) = [] \<and> article (reportStart st) = [] \<and>
   article (reportFinish outcome st) = article st \<and>
   (reportValid (ui c) \<and> run evs (handleGenerateReport c) = Some c' \<longrightarrow>
      article (ui c') = [] \<or>
      (\<exists>evs1 i e evs2 c2 cap r. evs = evs1 @ Settle i e # evs2 \<and>
         run evs1 (handleGenerateReport c) = Some c2 \<and> i < length (inflight c2) \<and>
         inflight c2 ! i = PendingArticle cap \<and> articleRequest e cap = Inr r \<and> article (ui c') = r))"
proof -
  have 1: "reportValid (ui c) \<longrightarrow>
      summary (ui (handleGenerateReport c)) = [] \<and>
      article (ui (handleGenerateReport c)) = [] \<and>
      inflight (handleGenerateReport c) = inflight c @ [PendingReport (ui c)]"
    by (simp add: handleGenerateReport_def reportStart_def)
  have 2: "summary (reportStart st) = [] \<and> article (reportStart st) = [] \<and>
      article (reportFinish outcome st) = article st"
    by (cases outcome) (simp_all add: reportStart_def reportFinish_def)
  have 3: "reportValid (ui c) \<and> run evs (handleGenerateReport c) = Some c' \<longrightarrow>
      article (ui c') = [] \<or>
      (\<exists>evs1 i e evs2 c2 cap r. evs = evs1 @ Settle i e # evs2 \<and>
         run evs1 (handleGenerateReport c) = Some c2 \<and> i < length (inflight c2) \<and>
         inflight c2 ! i = PendingArticle cap \<and> articleRequest e cap = Inr r \<and> article (ui c') = r)"
  proof (intro impI, elim conjE)
    assume v: "reportValid (ui c)" and r: "run evs (handleGenerateReport c) = Some c'"
    from v have "article (ui (handleGenerateReport c)) = []"
      by (simp add: handleGenerateReport_def reportStart_def)
    from run_article [OF this r] show "article (ui c') = [] \<or>
      (\<exists>evs1 i e evs2 c2 cap r. evs = evs1 @ Settle i e # evs2 \<and>
         run evs1 (handleGenerateReport c) = Some c2 \<and> i < length (inflight c2) \<and>
         inflight c2 ! i = PendingArticle cap \<and> articleRequest e cap = Inr r \<and> article (ui c') = r)" .
  qed
  from 1 2 3 show ?thesis
    by (intro conjI) blast+
qed

theorem report_generation_clears_both_slots_witness:
  "reportValid (ui page0) \<and> article (ui page0) = ''An article'' \<and>
   summary (ui (handleGenerateReport page0)) = [] \<and>
   article (ui (handleGenerateReport page0)) = [] \<and>
   inflight (handleGenerateReport page0) = inflight page0 @ [PendingReport (ui page0)] \<and>
   reportRequest offline (ui page0) = Inl ''Failed to generate content from video.'' \<and>
   map_option (article \<circ> ui) (run [Settle 0 offline] (handleGenerateReport page0)) = Some []"
proof -
  have u: "ui page0 = st0"
    by (simp add: page0_def)
  have l: "inflight page0 = []"
    by (simp add: page0_def)
  have v: "reportValid (ui page0)"
    using reportValid_st0 u by simp
  have a: "article (ui page0) = ''An article''"
    by (simp add: u st0_def)
  have q: "reportRequest offline (ui page0) = Inl ''Failed to generate content from video.''"
    using reportRequest_offline_st0 u by simp
  note t = report_generation_clears_both_slots [where c = page0 and evs = "[Settle 0 offline]"
      and st = st0 and outcome = "Inl []"]
  from t [THEN conjunct1] v
  have 1: "summary (ui (handleGenerateReport page0)) = [] \<and>
      article (ui (handleGenerateReport page0)) = [] \<and>
      inflight (handleGenerateReport page0) = inflight page0 @ [PendingReport (ui page0)]"
    by (rule mp)
  note i = 1 [THEN conjunct2, THEN conjunct2]
  from i l obtain c' where r: "run [Settle 0 offline] (handleGenerateReport page0) = Some c'"
    by simp
  from t [THEN conjunct2, THEN conjunct2, THEN conjunct2, THEN conjunct2] v r
  have 2: "article (ui c') = [] \<or>
      (\<exists>evs1 i e evs2 c2 cap r. [Settle 0 offline] = evs1 @ Settle i e # evs2 \<and>
         run evs1 (handleGenerateReport page0) = Some c2 \<and> i < length (inflight c2) \<and>
         inflight c2 ! i = PendingArticle cap \<and> articleRequest e cap = Inr r \<and>
         article (ui c') = r)"
    by (rule mp [OF _ conjI])
  then have 3: "article (ui c') = []"
  proof
    assume "article (ui c') = []"
    then show ?thesis .
  next
    assume "\<exists>evs1 i e evs2 c2 cap r. [Settle 0 offline] = evs1 @ Settle i e # evs2 \<and>
         run evs1 (handleGenerateReport page0) = Some c2 \<and> i < length (inflight c2) \<and>
         inflight c2 ! i = PendingArticle cap \<and> articleRequest e cap = Inr r \<and>
         article (ui c') = r"
    then obtain evs1 i e evs2 c2 cap where d: "[Settle 0 offline] = evs1 @ Settle i e # evs2"
      "run evs1 (handleGenerateReport page0) = Some c2" "inflight c2 ! i = PendingArticle cap"
      by blast
    from d(1) have "evs1 = []" "i = 0"
      by (simp_all add: Cons_eq_append_conv)
    with d(2,3) i l have False
      by simp
    then show ?thesis ..
  qed
  from r 3 have 4: "map_option (article \<circ> ui) (run [Settle 0 offline] (handleGenerateReport page0)) = Some []"
    by simp
  from v a 1 [THEN conjunct1] 1 [THEN conjunct2, THEN conjunct1] i q 4
  show ?thesis
    by (intro conjI)
qed

text \<open>
  C10. Selecting a file whose type starts with \<open>video/\<close> stores it, empties the pasted
  text and empties the error. Selecting a file of another type sets the error message and
  resets the stored video file to null, whatever was stored before, and leaves the pasted
  text as it was.
\<close>

theorem handleFileChange_effect:
  "(startsWith (fileType f) ''video/'' \<longrightarrow>
      videoFile (handleFileChange (Some f) st) = Some f \<and>
      mainInput (handleFileChange (Some f) st) = [] \<and>
      error (handleFileChange (Some f) st) = []) \<and>
   (\<not> startsWith (fileType f) ''video/'' \<longrightarrow>
      error (handleFileChange (Some f) st) = ''Please select a valid video file.'' \<and>
      videoFile (handleFileChange (Some f) st) = None \<and>
      mainInput (handleFileChange (Some f) st) = mainInput st)"
  by (simp add: handleFileChange_def)

theorem handleFileChange_effect_witness:
  "startsWith (fileType clip) ''video/'' \<and>
   videoFile (handleFileChange (Some clip) st0) = Some clip \<and>
   mainInput (handleFileChange (Some clip) st0) = [] \<and>
   error (handleFileChange (Some clip) st0) = [] \<and>
   \<not> startsWith (fileType picture) ''video/'' \<and>
   videoFile st0 = Some clip \<and>
   error (handleFileChange (Some picture) st0) = ''Please select a valid video file.'' \<and>
   videoFile (handleFileChange (Some picture) st0) = None \<and>
   mainInput (handleFileChange (Some picture) st0) = ''some notes''"
proof -
  have v: "startsWith (fileType clip) ''video/''"
    by (simp add: clip_def startsWith_def)
  have p: "\<not> startsWith (fileType picture) ''video/''"
    by (simp add: picture_def startsWith_def)
  have m: "mainInput st0 = ''some notes''" "videoFile st0 = Some clip"
    by (simp_all add: st0_def)
  show ?thesis
    using v p m handleFileChange_effect [of clip st0] handleFileChange_effect [of picture st0]
    by simp
qed

end
